theory Spec2Isabelle
  imports Main "HOL-Library.Word"
begin

unbundle bit_operations_syntax

section \<open>Address families and the SockAddr union\<close>

text \<open>
  The family tag of a socket address is a small integer whose values (\<open>AF_INET\<close>, ...)
  come from the system headers. Only their being distinct matters to \<open>ip.c\<close>, so the
  tag is a datatype: the four families the file names, and \<open>AF_OTHER n\<close> for every
  other value. \<open>AF_UNSPEC\<close> is the value 0 that \<open>calloc\<close> and \<open>MemSet\<close> leave.
\<close>

datatype sa_family_t = AF_UNSPEC | AF_UNIX | AF_INET | AF_INET6 | AF_OTHER nat

type_synonym octet = "8 word"

text \<open>
  \<open>SockAddr\<close> is the union of \<open>struct sockaddr\<close>, \<open>sockaddr_in\<close> and \<open>sockaddr_in6\<close>
  (declared in \<open>libpq/pqcomm.h\<close>). All members start with the family tag, followed by
  the port; \<open>in.sin_addr\<close> shares its storage with \<open>in6.sin6_flowinfo\<close> and not with
  \<open>in6.sin6_addr\<close>, so the two address payloads are independent fields. The tag is a
  raw field: nothing ties it to the payload that was written.
  \<open>sin_addr\<close> is the value of the C lvalue \<open>in.sin_addr.s_addr\<close>, a 32-bit unsigned
  integer as the host reads it; \<open>sin6_addr\<close> is the array \<open>in6.sin6_addr.s6_addr\<close> of
  16 octets in network order.
\<close>

record SockAddr =
  sa_family :: sa_family_t
  sin_port :: "16 word"
  sin_addr :: "32 word"
  sin6_addr :: "octet list"

text \<open>
  An IPv4 address is kept in memory in network byte order: the octets of \<open>a.b.c.d\<close> lie
  at increasing addresses. What the 32-bit integer \<open>s_addr\<close> is for these four octets
  depends on the byte order of the host.
\<close>

datatype byte_order = BigEndian | LittleEndian

definition word_of_octets :: "octet \<Rightarrow> octet \<Rightarrow> octet \<Rightarrow> octet \<Rightarrow> 32 word" where
  "word_of_octets b3 b2 b1 b0 =
     ucast b0 + push_bit 8 (ucast b1) + push_bit 16 (ucast b2) + push_bit 24 (ucast b3)"

fun s_addr_of_octets :: "byte_order \<Rightarrow> octet list \<Rightarrow> 32 word" where
  "s_addr_of_octets BigEndian [a, b, c, d] = word_of_octets a b c d"
| "s_addr_of_octets LittleEndian [a, b, c, d] = word_of_octets d c b a"
| "s_addr_of_octets _ _ = 0"

fun octets_of_s_addr :: "byte_order \<Rightarrow> 32 word \<Rightarrow> octet list" where
  "octets_of_s_addr BigEndian w =
     [ucast (drop_bit 24 w), ucast (drop_bit 16 w), ucast (drop_bit 8 w), ucast w]"
| "octets_of_s_addr LittleEndian w =
     [ucast w, ucast (drop_bit 8 w), ucast (drop_bit 16 w), ucast (drop_bit 24 w)]"

section \<open>Range matcher\<close>

text \<open>
  \<open>IN6_IS_ADDR_V4MAPPED\<close> is a macro of \<open>netinet/in.h\<close> (RFC 2553): the first 80 bits
  are zero and the next 16 bits are one.
\<close>

definition IN6_IS_ADDR_V4MAPPED :: "octet list \<Rightarrow> bool" where
  "IN6_IS_ADDR_V4MAPPED a =
     (take 10 a = [0, 0, 0, 0, 0, 0, 0, 0, 0, 0] \<and> a ! 10 = 0xff \<and> a ! 11 = 0xff)"

text \<open>
  \<open>rangeSockAddrAF_INET\<close>, lines 282-295. The C function returns the int 1 or 0.
\<close>

definition rangeSockAddrAF_INET :: "SockAddr \<Rightarrow> SockAddr \<Rightarrow> SockAddr \<Rightarrow> int" where
  "rangeSockAddrAF_INET addr netaddr netmask =
     (if sa_family addr \<noteq> AF_INET \<or> sa_family netaddr \<noteq> AF_INET \<or>
         sa_family netmask \<noteq> AF_INET
      then 0
      else if (sin_addr addr XOR sin_addr netaddr) AND sin_addr netmask = 0
      then 1
      else 0)"

text \<open>
  \<open>convSockAddr6to4\<close>, lines 327-341. The sum is computed in C on promoted ints and
  stored into the 32-bit \<open>s_addr\<close>; the four summands occupy disjoint bytes, so the
  stored value is the sum modulo \<open>2^32\<close>. The closing call of \<open>SockAddr_ntop\<close> fills a
  local buffer that is dropped on return and has no effect on \<open>dst\<close>.
\<close>

definition convSockAddr6to4 :: "SockAddr \<Rightarrow> SockAddr \<Rightarrow> SockAddr" where
  "convSockAddr6to4 src dst =
     dst\<lparr>sa_family := AF_INET,
         sin_port := sin_port src,
         sin_addr := ucast (sin6_addr src ! 15)
                     + push_bit 8 (ucast (sin6_addr src ! 14))
                     + push_bit 16 (ucast (sin6_addr src ! 13))
                     + push_bit 24 (ucast (sin6_addr src ! 12))\<rparr>"

text \<open>
  The local \<open>SockAddr addr4\<close> of \<open>rangeSockAddrAF_INET6\<close> is not initialised. Every field
  that is read afterwards is written by \<open>convSockAddr6to4\<close> first (lemma
  \<open>rangeSockAddrAF_INET_conv_indep\<close>), so any start value gives the same result.
\<close>

definition addr4_uninit :: SockAddr where
  "addr4_uninit = \<lparr>sa_family = AF_UNSPEC, sin_port = 0, sin_addr = 0, sin6_addr = []\<rparr>"

text \<open>The loop \<open>for (i = 0; i < 16; i++)\<close> of lines 317-322, from index \<open>i\<close> on.\<close>

function range6_loop :: "nat \<Rightarrow> octet list \<Rightarrow> octet list \<Rightarrow> octet list \<Rightarrow> int" where
  "range6_loop i a n m =
     (if i < 16
      then (if (a ! i XOR n ! i) AND m ! i \<noteq> 0 then 0 else range6_loop (i + 1) a n m)
      else 1)"
  by pat_completeness auto
termination
  by (relation "measure (\<lambda>(i, a, n, m). 16 - i)") auto

declare range6_loop.simps [simp del]

text \<open>\<open>rangeSockAddrAF_INET6\<close>, lines 298-325.\<close>

definition rangeSockAddrAF_INET6 :: "SockAddr \<Rightarrow> SockAddr \<Rightarrow> SockAddr \<Rightarrow> int" where
  "rangeSockAddrAF_INET6 addr netaddr netmask =
     (if IN6_IS_ADDR_V4MAPPED (sin6_addr addr) \<and>
         rangeSockAddrAF_INET (convSockAddr6to4 addr addr4_uninit) netaddr netmask \<noteq> 0
      then 1
      else if sa_family netaddr \<noteq> AF_INET6 \<or> sa_family netmask \<noteq> AF_INET6
      then 0
      else range6_loop 0 (sin6_addr addr) (sin6_addr netaddr) (sin6_addr netmask))"

text \<open>\<open>rangeSockAddr\<close>, lines 269-280.\<close>

definition rangeSockAddr :: "SockAddr \<Rightarrow> SockAddr \<Rightarrow> SockAddr \<Rightarrow> int" where
  "rangeSockAddr addr netaddr netmask =
     (if sa_family addr = AF_INET then rangeSockAddrAF_INET addr netaddr netmask
      else if sa_family addr = AF_INET6 then rangeSockAddrAF_INET6 addr netaddr netmask
      else 0)"

text \<open>\<open>isAF_INETx\<close>, lines 255-266.\<close>

definition isAF_INETx :: "sa_family_t \<Rightarrow> int" where
  "isAF_INETx family = (if family = AF_INET \<or> family = AF_INET6 then 1 else 0)"

text \<open>Constructors for the examples: an address as \<open>inet_pton\<close> stores it.\<close>

definition ipv4_addr :: "byte_order \<Rightarrow> octet list \<Rightarrow> SockAddr" where
  "ipv4_addr e os =
     \<lparr>sa_family = AF_INET, sin_port = 0, sin_addr = s_addr_of_octets e os,
      sin6_addr = []\<rparr>"

definition ipv6_addr :: "octet list \<Rightarrow> SockAddr" where
  "ipv6_addr os = \<lparr>sa_family = AF_INET6, sin_port = 0, sin_addr = 0, sin6_addr = os\<rparr>"

definition v4mapped :: "octet list \<Rightarrow> octet list" where
  "v4mapped os = [0, 0, 0, 0, 0, 0, 0, 0, 0, 0, 0xff, 0xff] @ os"

text \<open>A \<open>SockAddr\<close> with a Unix-domain tag and a stale value in the IPv4 payload.\<close>

definition unix_sa :: SockAddr where
  "unix_sa = \<lparr>sa_family = AF_UNIX, sin_port = 0, sin_addr = 0xDEADBEEF, sin6_addr = []\<rparr>"

section \<open>Text codec\<close>

text \<open>
  \<open>inet_ntop\<close> and \<open>inet_pton\<close> belong to the C library of the host, not to this
  repository. What they print and accept is a parameter of the model: \<open>ntop_text P af os\<close>
  is the text the host prints for the address octets \<open>os\<close> of family \<open>af\<close>, and
  \<open>pton_parse P af s\<close> is the address the host reads from the text \<open>s\<close>, or \<open>None\<close>
  when it rejects it. \<open>host_order P\<close> is the byte order of the host.
\<close>

record platform =
  host_order :: byte_order
  ntop_text :: "sa_family_t \<Rightarrow> octet list \<Rightarrow> string"
  pton_parse :: "sa_family_t \<Rightarrow> string \<Rightarrow> octet list option"

text \<open>\<open>INET6_ADDRSTRLEN\<close> of \<open>netinet/in.h\<close>, the size of the buffers the callers pass.\<close>

definition INET6_ADDRSTRLEN :: nat where
  "INET6_ADDRSTRLEN = 46"

definition NUL :: char where
  "NUL = CHR 0x00"

text \<open>
  A destination buffer is the list of the bytes of memory from \<open>dst\<close> on: the \<open>cnt\<close>
  bytes the caller offers and whatever lies behind them. A store that would leave
  this memory is \<open>None\<close>.
\<close>

definition write_at :: "char list \<Rightarrow> nat \<Rightarrow> char list \<Rightarrow> char list option" where
  "write_at mem off bytes =
     (if off + length bytes \<le> length mem
      then Some (take off mem @ bytes @ drop (off + length bytes) mem)
      else None)"

text \<open>The C string that starts at the beginning of a buffer.\<close>

definition c_str :: "char list \<Rightarrow> string" where
  "c_str mem = takeWhile (\<lambda>c. c \<noteq> NUL) mem"

text \<open>
  POSIX \<open>inet_ntop(af, src, dst, cnt)\<close>: when the text and its terminator fit into
  \<open>cnt\<close> bytes they are stored at \<open>dst\<close>; otherwise the call returns \<open>NULL\<close> (\<open>ENOSPC\<close>)
  and stores nothing. \<open>SockAddr_ntop\<close> drops the returned pointer, so the model
  returns the memory only.
\<close>

definition inet_ntop :: "platform \<Rightarrow> sa_family_t \<Rightarrow> octet list \<Rightarrow> char list \<Rightarrow> nat \<Rightarrow> char list option" where
  "inet_ntop P af src dst cnt =
     (let txt = ntop_text P af src
      in if length txt + 1 \<le> cnt then write_at dst 0 (txt @ [NUL]) else Some dst)"

text \<open>
  \<open>strcpy(mem + d, mem + s)\<close> inside one buffer: the string at \<open>s\<close> and its
  terminator, \<open>n\<close> bytes in all, are read from \<open>s\<close> on and stored from \<open>d\<close> on.
  C defines \<open>strcpy\<close> only for a source and a destination that do not overlap
  (ISO C 7.21.2.3), that is when the \<open>n\<close> bytes read and the \<open>n\<close> bytes stored are
  disjoint. An overlapping copy has no defined result, and the model gives it none:
  it is \<open>None\<close>, as is a copy that finds no terminator from \<open>s\<close> on or stores outside
  the modelled memory.
\<close>

definition regions_overlap :: "nat \<Rightarrow> nat \<Rightarrow> nat \<Rightarrow> bool" where
  "regions_overlap d s n = (d < s + n \<and> s < d + n)"

definition strcpy_mem :: "char list \<Rightarrow> nat \<Rightarrow> nat \<Rightarrow> char list option" where
  "strcpy_mem mem d s =
     (if NUL \<in> set (drop s mem)
      then (let str = takeWhile (\<lambda>c. c \<noteq> NUL) (drop s mem)
            in if regions_overlap d s (length str + 1)
               then None
               else write_at mem d (str @ [NUL]))
      else None)"

text \<open>
  \<open>SockAddr_ntop\<close>, lines 181-205, with \<open>HAVE_IPV6\<close> defined. The result is the
  memory from \<open>dst\<close> on after the call, or \<open>None\<close> when the call has no defined
  result.
\<close>

definition SockAddr_ntop :: "platform \<Rightarrow> SockAddr \<Rightarrow> char list \<Rightarrow> nat \<Rightarrow> int \<Rightarrow> char list option" where
  "SockAddr_ntop P sa dst cnt v4conv =
     (case sa_family sa of
        AF_INET \<Rightarrow> inet_ntop P AF_INET (octets_of_s_addr (host_order P) (sin_addr sa)) dst cnt
      | AF_INET6 \<Rightarrow>
          (case inet_ntop P AF_INET6 (sin6_addr sa) dst cnt of
             None \<Rightarrow> None
           | Some dst1 \<Rightarrow>
               if v4conv \<noteq> 0 \<and> IN6_IS_ADDR_V4MAPPED (sin6_addr sa)
               then strcpy_mem dst1 0 7
               else Some dst1)
      | _ \<Rightarrow> write_at dst 0 [NUL])"

text \<open>
  The loop of lines 218-225 over the characters of \<open>src\<close> up to its terminator: the
  family is \<open>AF_INET6\<close> as soon as a colon is met, \<open>AF_INET\<close> when the text ends
  without one.
\<close>

fun scan_family :: "string \<Rightarrow> sa_family_t" where
  "scan_family [] = AF_INET"
| "scan_family (ch # rest) = (if ch = CHR '':'' then AF_INET6 else scan_family rest)"

text \<open>
  POSIX \<open>inet_pton(af, src, dst)\<close>: 1 and the address stored when the text is valid
  for \<open>af\<close>, 0 and nothing stored when it is not, -1 (\<open>EAFNOSUPPORT\<close>) for any other
  family.
\<close>

definition inet_pton :: "platform \<Rightarrow> sa_family_t \<Rightarrow> string \<Rightarrow> int \<times> octet list option" where
  "inet_pton P af src =
     (if af = AF_INET \<or> af = AF_INET6
      then (case pton_parse P af src of None \<Rightarrow> (0, None) | Some os \<Rightarrow> (1, Some os))
      else (- 1, None))"

text \<open>
  \<open>SockAddr_pton\<close>, lines 211-247, with \<open>HAVE_IPV6\<close> defined. The result is the
  returned int and the \<open>SockAddr\<close> behind \<open>sa\<close> after the call.
\<close>

definition SockAddr_pton :: "platform \<Rightarrow> SockAddr \<Rightarrow> string \<Rightarrow> int \<times> SockAddr" where
  "SockAddr_pton P sa src =
     (let family = scan_family src;
          sa1 = sa\<lparr>sa_family := family\<rparr>
      in case family of
           AF_INET \<Rightarrow>
             (case inet_pton P AF_INET src of
                (rc, None) \<Rightarrow> (rc, sa1)
              | (rc, Some os) \<Rightarrow> (rc, sa1\<lparr>sin_addr := s_addr_of_octets (host_order P) os\<rparr>))
         | AF_INET6 \<Rightarrow>
             (case inet_pton P AF_INET6 src of
                (rc, None) \<Rightarrow> (rc, sa1)
              | (rc, Some os) \<Rightarrow> (rc, sa1\<lparr>sin6_addr := os\<rparr>))
         | _ \<Rightarrow> (- 1, sa1))"

text \<open>The address octets of a \<open>SockAddr\<close> as they lie in memory, by its family tag.\<close>

definition addr_octets :: "platform \<Rightarrow> SockAddr \<Rightarrow> octet list" where
  "addr_octets P sa =
     (if sa_family sa = AF_INET then octets_of_s_addr (host_order P) (sin_addr sa)
      else sin6_addr sa)"

text \<open>
  The family the specification infers from a text: IPv6 when a colon occurs in it,
  IPv4 otherwise. To be compared with \<open>scan_family\<close>.
\<close>

definition family_by_colon :: "string \<Rightarrow> sa_family_t" where
  "family_by_colon src = (if CHR '':'' \<in> set src then AF_INET6 else AF_INET)"


section \<open>Resolver: the Unix-domain path\<close>

text \<open>
  \<open>struct addrinfo\<close> and \<open>struct sockaddr_un\<close>. Pointers are heap addresses, \<open>None\<close>
  is \<open>NULL\<close>. \<open>sun_path\<close> is the C string held by the character array.
\<close>

record addrinfo =
  ai_flags :: "32 word"
  ai_family :: sa_family_t
  ai_socktype :: int
  ai_protocol :: int
  ai_addrlen :: nat
  ai_addr :: "nat option"
  ai_canonname :: "nat option"
  ai_next :: "nat option"

record sockaddr_un =
  sun_family :: sa_family_t
  sun_path :: string

datatype block = Node addrinfo | Addr sockaddr_un

text \<open>
  The state the function works on: the heap (allocated blocks by address), the next
  free address, the number of allocations that still succeed before memory runs
  out, and the names present in the file system.
\<close>

record world =
  heap :: "nat \<Rightarrow> block option"
  next_ptr :: nat
  avail :: nat
  files :: "string set"

text \<open>The return codes of \<open>netdb.h\<close>; \<open>EAI_SUCCESS\<close> stands for \<open>return 0\<close>.\<close>

datatype eai = EAI_SUCCESS | EAI_ADDRFAMILY | EAI_MEMORY | EAI_SERVICE

text \<open>A call either returns or dereferences a null pointer.\<close>

datatype 'a outcome = Returns 'a | Segfault

definition SOCK_STREAM :: int where
  "SOCK_STREAM = 1"

definition AI_PASSIVE :: "32 word" where
  "AI_PASSIVE = 1"

definition zero_addrinfo :: addrinfo where
  "zero_addrinfo =
     \<lparr>ai_flags = 0, ai_family = AF_UNSPEC, ai_socktype = 0, ai_protocol = 0,
      ai_addrlen = 0, ai_addr = None, ai_canonname = None, ai_next = None\<rparr>"

definition zero_sockaddr_un :: sockaddr_un where
  "zero_sockaddr_un = \<lparr>sun_family = AF_UNSPEC, sun_path = []\<rparr>"

text \<open>\<open>sizeof(struct sockaddr_un)\<close> for a path array of \<open>n\<close> bytes after a two-byte tag.\<close>

definition sizeof_sockaddr_un :: "nat \<Rightarrow> nat" where
  "sizeof_sockaddr_un n = n + 2"

text \<open>\<open>calloc(1, size)\<close>: a zeroed block at a fresh address, or \<open>NULL\<close>.\<close>

definition calloc :: "block \<Rightarrow> world \<Rightarrow> nat option \<times> world" where
  "calloc zeroed w =
     (if avail w = 0 then (None, w)
      else (Some (next_ptr w),
            w\<lparr>heap := (heap w)(next_ptr w := Some zeroed),
               next_ptr := next_ptr w + 1,
               avail := avail w - 1\<rparr>))"

definition store :: "nat \<Rightarrow> block \<Rightarrow> world \<Rightarrow> world" where
  "store p b w = w\<lparr>heap := (heap w)(p := Some b)\<rparr>"

definition unlink :: "string \<Rightarrow> world \<Rightarrow> world" where
  "unlink path w = w\<lparr>files := files w - {path}\<rparr>"

text \<open>
  \<open>getaddrinfo_unix\<close>, lines 108-166. \<open>sun_path_size\<close> is \<open>sizeof(unp->sun_path)\<close>,
  \<open>hintsp\<close> is \<open>None\<close> for a null pointer, \<open>res\<close> is what \<open>*result\<close> holds before the
  call; the outcome carries the return code, \<open>*result\<close> and the state after the call.
  The \<open>elog\<close> line is not modelled.
\<close>

definition getaddrinfo_unix ::
  "nat \<Rightarrow> string \<Rightarrow> addrinfo option \<Rightarrow> nat option \<Rightarrow> world \<Rightarrow> (eai \<times> nat option \<times> world) outcome" where
  "getaddrinfo_unix sun_path_size path hintsp res w =
     (let hints0 = (case hintsp of
                      None \<Rightarrow> zero_addrinfo\<lparr>ai_family := AF_UNIX, ai_socktype := SOCK_STREAM\<rparr>
                    | Some h \<Rightarrow> h);
          hints = (if ai_socktype hints0 = 0 then hints0\<lparr>ai_socktype := SOCK_STREAM\<rparr> else hints0)
      in if ai_family hints \<noteq> AF_UNIX then Returns (EAI_ADDRFAMILY, res, w)
         else
           (case calloc (Node zero_addrinfo) w of
              (None, w1) \<Rightarrow> Returns (EAI_MEMORY, res, w1)
            | (Some aip, w1) \<Rightarrow>
                (let node = zero_addrinfo\<lparr>ai_family := AF_UNIX,
                                           ai_socktype := ai_socktype hints,
                                           ai_protocol := ai_protocol hints,
                                           ai_next := None,
                                           ai_canonname := None\<rparr>;
                     w2 = store aip (Node node) w1
                 in case calloc (Addr zero_sockaddr_un) w2 of
                      (unp, w3) \<Rightarrow>
                        if Some aip = None then Returns (EAI_MEMORY, Some aip, w3)
                        else
                          (case unp of
                             None \<Rightarrow> Segfault
                           | Some u \<Rightarrow>
                               (let un = zero_sockaddr_un\<lparr>sun_family := AF_UNIX\<rparr>;
                                    w4 = store u (Addr un) w3;
                                    w5 = store aip
                                           (Node (node\<lparr>ai_addr := Some u,
                                                       ai_addrlen := sizeof_sockaddr_un sun_path_size\<rparr>))
                                           w4
                                in if length path \<ge> sun_path_size
                                   then Returns (EAI_SERVICE, Some aip, w5)
                                   else
                                     (let w6 = store u (Addr (un\<lparr>sun_path := path\<rparr>)) w5;
                                          w7 = (if ai_flags hints AND AI_PASSIVE \<noteq> 0
                                                then unlink path w6 else w6)
                                      in Returns (EAI_SUCCESS, Some aip, w7)))))))"

text \<open>
  The hints let the family test of line 129 pass: a null pointer, or hints that name
  \<open>AF_UNIX\<close>.
\<close>

definition unix_hints_ok :: "addrinfo option \<Rightarrow> bool" where
  "unix_hints_ok hintsp = (case hintsp of None \<Rightarrow> True | Some h \<Rightarrow> ai_family h = AF_UNIX)"

text \<open>A state with nothing allocated, \<open>n\<close> allocations left and the files \<open>fs\<close>.\<close>

definition fresh_world :: "nat \<Rightarrow> string set \<Rightarrow> world" where
  "fresh_world n fs = \<lparr>heap = (\<lambda>p. None), next_ptr = 0, avail = n, files = fs\<rparr>"

section \<open>A reference host\<close>

text \<open>
  Where an example needs a concrete host, this one is used: dotted-decimal text for
  IPv4 and the colon-hexadecimal text of RFC 4291 for IPv6, printed and read the way
  the resolver library of BIND and the GNU C library do (\<open>inet_ntop4\<close>, \<open>inet_ntop6\<close>,
  \<open>inet_pton4\<close>, \<open>inet_pton6\<close>). None of it is code of this repository.
\<close>

definition digit_char :: "nat \<Rightarrow> char" where
  "digit_char n = ''0123456789abcdef'' ! n"

definition dec_octet :: "octet \<Rightarrow> string" where
  "dec_octet b =
     (let n = unat b
      in (if 100 \<le> n then [digit_char (n div 100)] else [])
         @ (if 10 \<le> n then [digit_char (n div 10 mod 10)] else [])
         @ [digit_char (n mod 10)])"

definition hex_group :: "nat \<Rightarrow> string" where
  "hex_group n =
     (if 4096 \<le> n then [digit_char (n div 4096 mod 16)] else [])
     @ (if 256 \<le> n then [digit_char (n div 256 mod 16)] else [])
     @ (if 16 \<le> n then [digit_char (n div 16 mod 16)] else [])
     @ [digit_char (n mod 16)]"

definition ref_ntop4 :: "octet list \<Rightarrow> string" where
  "ref_ntop4 os =
     (case os of
        [a, b, c, d] \<Rightarrow> dec_octet a @ ''.'' @ dec_octet b @ ''.'' @ dec_octet c @ ''.'' @ dec_octet d
      | _ \<Rightarrow> [])"

fun index_of :: "char \<Rightarrow> string \<Rightarrow> nat option" where
  "index_of c [] = None"
| "index_of c (x # xs) = (if c = x then Some 0 else map_option Suc (index_of c xs))"

definition xdigit_val :: "char \<Rightarrow> nat option" where
  "xdigit_val c =
     (case index_of c ''0123456789abcdef'' of
        Some n \<Rightarrow> Some n
      | None \<Rightarrow> map_option (\<lambda>n. n + 10) (index_of c ''ABCDEF''))"

text \<open>
  \<open>inet_pton4\<close>: the octets finished, the value of the octet being read, and whether
  a digit of it has been seen. A leading zero and a value above 255 are refused.
\<close>

fun pton4_loop :: "string \<Rightarrow> nat list \<Rightarrow> nat \<Rightarrow> bool \<Rightarrow> nat list option" where
  "pton4_loop [] done cur saw = (if saw \<and> length done = 3 then Some (done @ [cur]) else None)"
| "pton4_loop (ch # rest) done cur saw =
     (case index_of ch ''0123456789'' of
        Some d \<Rightarrow>
          (if saw \<and> cur = 0 then None
           else if cur * 10 + d > 255 then None
           else pton4_loop rest done (cur * 10 + d) True)
      | None \<Rightarrow>
          (if ch = CHR ''.'' \<and> saw
           then (if length done = 3 then None else pton4_loop rest (done @ [cur]) 0 False)
           else None))"

definition ref_pton4 :: "string \<Rightarrow> octet list option" where
  "ref_pton4 s = map_option (map of_nat) (pton4_loop s [] 0 False)"

text \<open>\<open>inet_ntop6\<close>: the eight 16-bit groups, the first longest run of zero groups.\<close>

fun groups16 :: "octet list \<Rightarrow> nat list" where
  "groups16 (hi # lo # rest) = (256 * unat hi + unat lo) # groups16 rest"
| "groups16 _ = []"

definition better :: "(nat \<times> nat) option \<Rightarrow> (nat \<times> nat) option \<Rightarrow> (nat \<times> nat) option" where
  "better cur best =
     (case cur of
        None \<Rightarrow> best
      | Some (cb, cl) \<Rightarrow>
          (case best of None \<Rightarrow> cur | Some (bb, bl) \<Rightarrow> if cl > bl then cur else best))"

fun zero_run :: "nat list \<Rightarrow> nat \<Rightarrow> (nat \<times> nat) option \<Rightarrow> (nat \<times> nat) option \<Rightarrow> (nat \<times> nat) option" where
  "zero_run [] i cur best = better cur best"
| "zero_run (w # ws) i cur best =
     (if w = 0
      then zero_run ws (i + 1)
             (case cur of None \<Rightarrow> Some (i, 1) | Some (cb, cl) \<Rightarrow> Some (cb, cl + 1)) best
      else zero_run ws (i + 1) None (better cur best))"

definition best_run :: "nat list \<Rightarrow> (nat \<times> nat) option" where
  "best_run ws =
     (case zero_run ws 0 None None of
        None \<Rightarrow> None
      | Some (b, l) \<Rightarrow> if l < 2 then None else Some (b, l))"

fun ntop6_loop :: "octet list \<Rightarrow> nat list \<Rightarrow> (nat \<times> nat) option \<Rightarrow> nat \<Rightarrow> nat list \<Rightarrow> string" where
  "ntop6_loop os all best i [] =
     (case best of None \<Rightarrow> [] | Some (b, l) \<Rightarrow> if b + l = 8 then '':'' else [])"
| "ntop6_loop os all best i (w # ws) =
     (if (case best of None \<Rightarrow> False | Some (b, l) \<Rightarrow> b \<le> i \<and> i < b + l)
      then (if (case best of None \<Rightarrow> False | Some (b, l) \<Rightarrow> i = b) then '':'' else [])
           @ ntop6_loop os all best (i + 1) ws
      else (if i = 0 then [] else '':'')
           @ (if i = 6 \<and> (best = Some (0, 6) \<or> (best = Some (0, 5) \<and> all ! 5 = 0xffff))
              then ref_ntop4 (drop 12 os)
              else hex_group w @ ntop6_loop os all best (i + 1) ws))"

definition ref_ntop6 :: "octet list \<Rightarrow> string" where
  "ref_ntop6 os = (let ws = groups16 os in ntop6_loop os ws (best_run ws) 0 ws)"

text \<open>
  \<open>inet_pton6\<close>: the rest of the text, the start of the current group, the octets
  written, the place of a \<open>::\<close>, whether a digit of the group has been seen, and the
  value of the group. \<open>pton6_finish\<close> is the end of \<open>inet_pton6\<close>: the octets behind a
  \<open>::\<close> are moved to the end and the gap is filled with zeros.
\<close>

fun pton6_loop ::
  "string \<Rightarrow> string \<Rightarrow> nat list \<Rightarrow> nat option \<Rightarrow> bool \<Rightarrow> nat \<Rightarrow> (nat list \<times> nat option) option" where
  "pton6_loop [] curtok out colonp saw val =
     (if saw
      then (if length out + 2 > 16 then None else Some (out @ [val div 256, val mod 256], colonp))
      else Some (out, colonp))"
| "pton6_loop (ch # rest) curtok out colonp saw val =
     (case xdigit_val ch of
        Some d \<Rightarrow>
          (if val * 16 + d > 0xffff then None
           else pton6_loop rest curtok out colonp True (val * 16 + d))
      | None \<Rightarrow>
          (if ch = CHR '':''
           then (if saw
                 then (if rest = [] then None
                       else if length out + 2 > 16 then None
                       else pton6_loop rest rest (out @ [val div 256, val mod 256]) colonp False 0)
                 else (if colonp = None
                       then pton6_loop rest rest out (Some (length out)) False val
                       else None))
           else if ch = CHR ''.'' \<and> length out + 4 \<le> 16
           then (case pton4_loop curtok [] 0 False of
                   Some q \<Rightarrow> Some (out @ q, colonp)
                 | None \<Rightarrow> None)
           else None))"

definition pton6_finish :: "(nat list \<times> nat option) option \<Rightarrow> octet list option" where
  "pton6_finish r =
     (case r of
        None \<Rightarrow> None
      | Some (out, None) \<Rightarrow> if length out = 16 then Some (map of_nat out) else None
      | Some (out, Some c) \<Rightarrow>
          if length out = 16 then None
          else Some (map of_nat (take c out @ replicate (16 - length out) 0 @ drop c out)))"

definition ref_pton6 :: "string \<Rightarrow> octet list option" where
  "ref_pton6 s =
     (case s of
        [] \<Rightarrow> pton6_finish (pton6_loop s s [] None False 0)
      | ch # rest \<Rightarrow>
          if ch = CHR '':''
          then (case rest of
                  [] \<Rightarrow> None
                | ch2 # _ \<Rightarrow>
                    if ch2 = CHR '':'' then pton6_finish (pton6_loop rest rest [] None False 0)
                    else None)
          else pton6_finish (pton6_loop s s [] None False 0))"

definition ref_host :: "byte_order \<Rightarrow> platform" where
  "ref_host e =
     \<lparr>host_order = e,
      ntop_text = (\<lambda>af os. if af = AF_INET then ref_ntop4 os
                            else if af = AF_INET6 then ref_ntop6 os else []),
      pton_parse = (\<lambda>af s. if af = AF_INET then ref_pton4 s
                            else if af = AF_INET6 then ref_pton6 s else None)\<rparr>"

text \<open>
  For the proofs about the reference host: the text of a list of groups with a
  colon before each (\<open>colon_groups\<close>) or between them (\<open>bare_groups\<close>), and the octets of
  a list of groups.
\<close>

fun colon_groups :: "nat list \<Rightarrow> string" where
  "colon_groups [] = []"
| "colon_groups (w # ws) = CHR '':'' # hex_group w @ colon_groups ws"

fun bare_groups :: "nat list \<Rightarrow> string" where
  "bare_groups [] = []"
| "bare_groups (w # ws) = hex_group w @ colon_groups ws"

definition bytes16 :: "nat list \<Rightarrow> nat list" where
  "bytes16 ws = concat (map (\<lambda>w. [w div 256, w mod 256]) ws)"

section \<open>Proofs: byte order\<close>

lemma word_of_octets_or:
  "word_of_octets b3 b2 b1 b0 =
     ((ucast b0 OR push_bit 8 (ucast b1)) OR push_bit 16 (ucast b2)) OR push_bit 24 (ucast b3)"
proof -
  have 1: "ucast b0 + push_bit 8 (ucast b1 :: 32 word) = ucast b0 OR push_bit 8 (ucast b1)"
    by (rule disjunctive_add_eq_or) (auto simp: bit_eq_iff bit_simps dest: bit_imp_le_length)
  have 2: "(ucast b0 OR push_bit 8 (ucast b1 :: 32 word)) + push_bit 16 (ucast b2)
           = (ucast b0 OR push_bit 8 (ucast b1)) OR push_bit 16 (ucast b2)"
    by (rule disjunctive_add_eq_or) (auto simp: bit_eq_iff bit_simps dest: bit_imp_le_length)
  have 3: "((ucast b0 OR push_bit 8 (ucast b1 :: 32 word)) OR push_bit 16 (ucast b2)) + push_bit 24 (ucast b3)
           = ((ucast b0 OR push_bit 8 (ucast b1)) OR push_bit 16 (ucast b2)) OR push_bit 24 (ucast b3)"
    by (rule disjunctive_add_eq_or) (auto simp: bit_eq_iff bit_simps dest: bit_imp_le_length)
  show ?thesis unfolding word_of_octets_def 1 2 3 ..
qed

lemma bit_word_of_octets:
  "bit (word_of_octets b3 b2 b1 b0) k =
     (if k < 8 then bit b0 k else if k < 16 then bit b1 (k - 8)
      else if k < 24 then bit b2 (k - 16) else if k < 32 then bit b3 (k - 24) else False)"
  by (auto simp: word_of_octets_or bit_simps dest: bit_imp_le_length)

lemma word_of_octets_bitwise:
  "(word_of_octets a3 a2 a1 a0 XOR word_of_octets n3 n2 n1 n0) AND word_of_octets m3 m2 m1 m0
   = word_of_octets ((a3 XOR n3) AND m3) ((a2 XOR n2) AND m2) ((a1 XOR n1) AND m1) ((a0 XOR n0) AND m0)"
  by (rule bit_eqI) (simp add: bit_word_of_octets bit_simps)

lemma octet_eq_0I:
  fixes b :: octet
  assumes "\<And>k. k < 8 \<Longrightarrow> \<not> bit b k"
  shows "b = 0"
proof (rule bit_eqI)
  fix k assume "possible_bit TYPE(8 word) k"
  then have "k < 8" by (simp add: possible_bit_word)
  then show "bit b k = bit (0::8 word) k" using assms by simp
qed

lemma word_of_octets_eq_0:
  "word_of_octets b3 b2 b1 b0 = 0 \<longleftrightarrow> b3 = 0 \<and> b2 = 0 \<and> b1 = 0 \<and> b0 = 0"
proof
  assume z: "word_of_octets b3 b2 b1 b0 = 0"
  have b: "\<not> bit (word_of_octets b3 b2 b1 b0) k" for k by (simp add: z)
  have "b0 = 0"
  proof (rule octet_eq_0I)
    fix k :: nat assume "k < 8"
    with b [of k] show "\<not> bit b0 k" by (simp add: bit_word_of_octets)
  qed
  moreover have "b1 = 0"
  proof (rule octet_eq_0I)
    fix k :: nat assume "k < 8"
    with b [of "k + 8"] show "\<not> bit b1 k" by (simp add: bit_word_of_octets)
  qed
  moreover have "b2 = 0"
  proof (rule octet_eq_0I)
    fix k :: nat assume "k < 8"
    with b [of "k + 16"] show "\<not> bit b2 k" by (simp add: bit_word_of_octets)
  qed
  moreover have "b3 = 0"
  proof (rule octet_eq_0I)
    fix k :: nat assume "k < 8"
    with b [of "k + 24"] show "\<not> bit b3 k" by (simp add: bit_word_of_octets)
  qed
  ultimately show "b3 = 0 \<and> b2 = 0 \<and> b1 = 0 \<and> b0 = 0" by simp
next
  assume "b3 = 0 \<and> b2 = 0 \<and> b1 = 0 \<and> b0 = 0"
  then show "word_of_octets b3 b2 b1 b0 = 0" by (simp add: word_of_octets_def)
qed

text \<open>Whether a masked difference vanishes does not depend on the byte order.\<close>

lemma masked_zero_any_order:
  "((s_addr_of_octets e [a3, a2, a1, a0] XOR s_addr_of_octets e [n3, n2, n1, n0])
      AND s_addr_of_octets e [m3, m2, m1, m0] = 0)
   = ((word_of_octets a3 a2 a1 a0 XOR word_of_octets n3 n2 n1 n0)
        AND word_of_octets m3 m2 m1 m0 = 0)"
  by (cases e) (auto simp: word_of_octets_bitwise word_of_octets_eq_0)

lemma s_addr_octets_inverse: "s_addr_of_octets e (octets_of_s_addr e w) = w"
proof (cases e)
  case BigEndian
  have "word_of_octets (ucast (drop_bit 24 w)) (ucast (drop_bit 16 w)) (ucast (drop_bit 8 w)) (ucast w) = w"
    by (rule bit_eqI) (auto simp: bit_word_of_octets bit_simps)
  with BigEndian show ?thesis by simp
next
  case LittleEndian
  have "word_of_octets (ucast (drop_bit 24 w)) (ucast (drop_bit 16 w)) (ucast (drop_bit 8 w)) (ucast w) = w"
    by (rule bit_eqI) (auto simp: bit_word_of_octets bit_simps)
  with LittleEndian show ?thesis by simp
qed

section \<open>Proofs: range matcher\<close>

lemma range6_loop_iff:
  "range6_loop i a n m =
     (if (\<forall>j. i \<le> j \<and> j < 16 \<longrightarrow> (a ! j XOR n ! j) AND m ! j = 0) then 1 else 0)"
proof (induction i a n m rule: range6_loop.induct)
  case (1 i a n m)
  show ?case
  proof (cases "i < 16")
    case False
    then show ?thesis by (simp add: range6_loop.simps [of i])
  next
    case True
    show ?thesis
    proof (cases "(a ! i XOR n ! i) AND m ! i = 0")
      case False
      with True show ?thesis
        by (subst range6_loop.simps) auto
    next
      case z: True
      have "(\<forall>j. i \<le> j \<and> j < 16 \<longrightarrow> (a ! j XOR n ! j) AND m ! j = 0)
            = (\<forall>j. i + 1 \<le> j \<and> j < 16 \<longrightarrow> (a ! j XOR n ! j) AND m ! j = 0)"
      proof (intro iffI allI impI)
        fix j
        assume "\<forall>j. i \<le> j \<and> j < 16 \<longrightarrow> (a ! j XOR n ! j) AND m ! j = 0"
          and "i + 1 \<le> j \<and> j < 16"
        then show "(a ! j XOR n ! j) AND m ! j = 0" by simp
      next
        fix j
        assume h: "\<forall>j. i + 1 \<le> j \<and> j < 16 \<longrightarrow> (a ! j XOR n ! j) AND m ! j = 0"
          and j: "i \<le> j \<and> j < 16"
        show "(a ! j XOR n ! j) AND m ! j = 0"
        proof (cases "j = i")
          case True
          then show ?thesis using z by simp
        next
          case False
          with j have "i + 1 \<le> j \<and> j < 16" by simp
          with h show ?thesis by blast
        qed
      qed
      with True z "1.IH" show ?thesis
        by (subst range6_loop.simps) simp
    qed
  qed
qed

lemma rangeSockAddrAF_INET_conv_indep:
  "rangeSockAddrAF_INET (convSockAddr6to4 src d1) netaddr netmask
   = rangeSockAddrAF_INET (convSockAddr6to4 src d2) netaddr netmask"
  by (simp add: rangeSockAddrAF_INET_def convSockAddr6to4_def)

text \<open>The part of the mapped fallback that holds on every host.\<close>

lemma rangeSockAddrAF_INET6_submatch:
  assumes "IN6_IS_ADDR_V4MAPPED (sin6_addr addr)"
    and "rangeSockAddrAF_INET (convSockAddr6to4 addr d) netaddr netmask = 1"
  shows "rangeSockAddrAF_INET6 addr netaddr netmask = 1"
  using assms rangeSockAddrAF_INET_conv_indep [of addr d netaddr netmask addr4_uninit]
  by (simp add: rangeSockAddrAF_INET6_def)

lemma convSockAddr6to4_fields:
  "sa_family (convSockAddr6to4 src dst) = AF_INET"
  "sin_port (convSockAddr6to4 src dst) = sin_port src"
  "sin_addr (convSockAddr6to4 src dst)
     = word_of_octets (sin6_addr src ! 12) (sin6_addr src ! 13) (sin6_addr src ! 14) (sin6_addr src ! 15)"
  by (simp_all add: convSockAddr6to4_def word_of_octets_def)

text \<open>
  C1. For an address, a network and a mask that all carry the IPv4 tag,
  \<open>rangeSockAddrAF_INET\<close> returns 1 exactly when \<open>(addr XOR network) AND mask\<close> is zero,
  and it returns 0 as soon as one of the three tags is not IPv4. On addresses given
  by their four octets the test is the one on the 32-bit value in network order,
  whatever the byte order of the host. 10.1.2.3 lies in 10.0.0.0/255.0.0.0 and
  11.1.2.3 does not.
\<close>

theorem rangeSockAddrAF_INET_correct:
  "rangeSockAddrAF_INET addr netaddr netmask =
     (if sa_family addr = AF_INET \<and> sa_family netaddr = AF_INET \<and> sa_family netmask = AF_INET
         \<and> (sin_addr addr XOR sin_addr netaddr) AND sin_addr netmask = 0
      then 1 else 0)
   \<and> (rangeSockAddrAF_INET (ipv4_addr e [a3, a2, a1, a0]) (ipv4_addr e [n3, n2, n1, n0])
          (ipv4_addr e [m3, m2, m1, m0]) = 1)
      = ((word_of_octets a3 a2 a1 a0 XOR word_of_octets n3 n2 n1 n0)
           AND word_of_octets m3 m2 m1 m0 = 0)
   \<and> rangeSockAddrAF_INET (ipv4_addr e [10, 1, 2, 3]) (ipv4_addr e [10, 0, 0, 0])
        (ipv4_addr e [255, 0, 0, 0]) = 1
   \<and> rangeSockAddrAF_INET (ipv4_addr e [11, 1, 2, 3]) (ipv4_addr e [10, 0, 0, 0])
        (ipv4_addr e [255, 0, 0, 0]) = 0"
proof (intro conjI)
  show "rangeSockAddrAF_INET addr netaddr netmask =
     (if sa_family addr = AF_INET \<and> sa_family netaddr = AF_INET \<and> sa_family netmask = AF_INET
         \<and> (sin_addr addr XOR sin_addr netaddr) AND sin_addr netmask = 0
      then 1 else 0)"
    by (simp add: rangeSockAddrAF_INET_def)
  show "(rangeSockAddrAF_INET (ipv4_addr e [a3, a2, a1, a0]) (ipv4_addr e [n3, n2, n1, n0])
          (ipv4_addr e [m3, m2, m1, m0]) = 1)
      = ((word_of_octets a3 a2 a1 a0 XOR word_of_octets n3 n2 n1 n0)
           AND word_of_octets m3 m2 m1 m0 = 0)"
    using masked_zero_any_order [of e a3 a2 a1 a0 n3 n2 n1 n0 m3 m2 m1 m0]
    by (simp add: rangeSockAddrAF_INET_def ipv4_addr_def del: s_addr_of_octets.simps)
  show "rangeSockAddrAF_INET (ipv4_addr e [10, 1, 2, 3]) (ipv4_addr e [10, 0, 0, 0])
        (ipv4_addr e [255, 0, 0, 0]) = 1"
    by (cases e) (simp_all add: rangeSockAddrAF_INET_def ipv4_addr_def word_of_octets_def)
  show "rangeSockAddrAF_INET (ipv4_addr e [11, 1, 2, 3]) (ipv4_addr e [10, 0, 0, 0])
        (ipv4_addr e [255, 0, 0, 0]) = 0"
    by (cases e) (simp_all add: rangeSockAddrAF_INET_def ipv4_addr_def word_of_octets_def)
qed

theorem rangeSockAddrAF_INET_correct_witness:
  "rangeSockAddrAF_INET (ipv4_addr LittleEndian [192, 168, 7, 9])
     (ipv4_addr LittleEndian [192, 168, 0, 0]) (ipv4_addr LittleEndian [255, 255, 0, 0]) = 1
   \<and> rangeSockAddrAF_INET (ipv6_addr (v4mapped [192, 168, 7, 9]))
     (ipv4_addr LittleEndian [192, 168, 0, 0]) (ipv4_addr LittleEndian [255, 255, 0, 0]) = 0"
  using rangeSockAddrAF_INET_correct
    [of "ipv4_addr LittleEndian [192, 168, 7, 9]" "ipv4_addr LittleEndian [192, 168, 0, 0]"
        "ipv4_addr LittleEndian [255, 255, 0, 0]" LittleEndian 192 168 7 9 192 168 0 0 255 255 0 0]
    rangeSockAddrAF_INET_correct
    [of "ipv6_addr (v4mapped [192, 168, 7, 9])" "ipv4_addr LittleEndian [192, 168, 0, 0]"
        "ipv4_addr LittleEndian [255, 255, 0, 0]" LittleEndian 0 0 0 0 0 0 0 0 0 0 0 0]
  by (simp add: ipv4_addr_def ipv6_addr_def word_of_octets_def)

text \<open>
  C3. For an address tagged IPv6 that the mapped fallback has not already accepted,
  \<open>rangeSockAddr\<close> returns 1 exactly when network and mask are tagged IPv6 and
  \<open>(addr[i] XOR network[i]) AND mask[i]\<close> is zero for each of the 16 octets; the loop
  answers 0 at a mismatching octet without reading the later ones; and an address
  whose tag is neither IPv4 nor IPv6 gets 0.
\<close>

theorem rangeSockAddr_INET6_correct:
  "(sa_family addr = AF_INET6
      \<and> \<not> (IN6_IS_ADDR_V4MAPPED (sin6_addr addr)
             \<and> rangeSockAddrAF_INET (convSockAddr6to4 addr addr4_uninit) netaddr netmask \<noteq> 0)
     \<longrightarrow> rangeSockAddr addr netaddr netmask =
           (if sa_family netaddr = AF_INET6 \<and> sa_family netmask = AF_INET6
               \<and> (\<forall>i<16. (sin6_addr addr ! i XOR sin6_addr netaddr ! i) AND sin6_addr netmask ! i = 0)
            then 1 else 0))
   \<and> (i < 16 \<and> (a ! i XOR n ! i) AND m ! i \<noteq> 0 \<longrightarrow> range6_loop i a n m = 0)
   \<and> (sa_family addr \<noteq> AF_INET \<and> sa_family addr \<noteq> AF_INET6
     \<longrightarrow> rangeSockAddr addr netaddr netmask = 0)"
proof (intro conjI impI)
  assume h: "sa_family addr = AF_INET6
      \<and> \<not> (IN6_IS_ADDR_V4MAPPED (sin6_addr addr)
             \<and> rangeSockAddrAF_INET (convSockAddr6to4 addr addr4_uninit) netaddr netmask \<noteq> 0)"
  then have "rangeSockAddr addr netaddr netmask =
      (if sa_family netaddr \<noteq> AF_INET6 \<or> sa_family netmask \<noteq> AF_INET6 then 0
       else range6_loop 0 (sin6_addr addr) (sin6_addr netaddr) (sin6_addr netmask))"
    by (auto simp: rangeSockAddr_def rangeSockAddrAF_INET6_def)
  then show "rangeSockAddr addr netaddr netmask =
           (if sa_family netaddr = AF_INET6 \<and> sa_family netmask = AF_INET6
               \<and> (\<forall>i<16. (sin6_addr addr ! i XOR sin6_addr netaddr ! i) AND sin6_addr netmask ! i = 0)
            then 1 else 0)"
    by (simp add: range6_loop_iff)
next
  assume "i < 16 \<and> (a ! i XOR n ! i) AND m ! i \<noteq> 0"
  then show "range6_loop i a n m = 0"
    by (subst range6_loop.simps) simp
next
  assume "sa_family addr \<noteq> AF_INET \<and> sa_family addr \<noteq> AF_INET6"
  then show "rangeSockAddr addr netaddr netmask = 0"
    by (simp add: rangeSockAddr_def)
qed

lemma all_less_16:
  "(\<forall>i<16. P (i::nat)) =
     (P 0 \<and> P 1 \<and> P 2 \<and> P 3 \<and> P 4 \<and> P 5 \<and> P 6 \<and> P 7 \<and> P 8 \<and> P 9 \<and> P 10 \<and> P 11
      \<and> P 12 \<and> P 13 \<and> P 14 \<and> P 15)"
proof -
  have s: "{..<16::nat} = {0, 1, 2, 3, 4, 5, 6, 7, 8, 9, 10, 11, 12, 13, 14, 15}"
    by auto arith
  have "(\<forall>i<16. P (i::nat)) = (\<forall>i\<in>{..<16::nat}. P i)"
    by auto
  also have "\<dots> = (\<forall>i\<in>{0, 1, 2, 3, 4, 5, 6, 7, 8, 9, 10, 11, 12, 13, 14, 15}. P i)"
    by (simp only: s)
  finally show ?thesis by simp
qed

theorem rangeSockAddr_INET6_correct_witness:
  "rangeSockAddr (ipv6_addr [0x20, 0x01, 0x0d, 0xb8, 0, 0, 0, 0, 0, 0, 0, 0, 0, 0, 0, 1])
     (ipv6_addr [0x20, 0x01, 0x0d, 0xb8, 0, 0, 0, 0, 0, 0, 0, 0, 0, 0, 0, 0])
     (ipv6_addr [0xff, 0xff, 0xff, 0xff, 0, 0, 0, 0, 0, 0, 0, 0, 0, 0, 0, 0]) = 1
   \<and> rangeSockAddr (ipv6_addr [0x20, 0x01, 0x0d, 0xb9, 0, 0, 0, 0, 0, 0, 0, 0, 0, 0, 0, 1])
     (ipv6_addr [0x20, 0x01, 0x0d, 0xb8, 0, 0, 0, 0, 0, 0, 0, 0, 0, 0, 0, 0])
     (ipv6_addr [0xff, 0xff, 0xff, 0xff, 0, 0, 0, 0, 0, 0, 0, 0, 0, 0, 0, 0]) = 0
   \<and> range6_loop 3 [0x20, 0x01, 0x0d, 0xb9] [0x20, 0x01, 0x0d, 0xb8] [0xff, 0xff, 0xff, 0xff] = 0
   \<and> rangeSockAddr \<lparr>sa_family = AF_UNIX, sin_port = 0, sin_addr = 0, sin6_addr = []\<rparr>
     (ipv4_addr LittleEndian [10, 0, 0, 0]) (ipv4_addr LittleEndian [255, 0, 0, 0]) = 0"
proof -
  let ?n = "ipv6_addr [0x20, 0x01, 0x0d, 0xb8, 0, 0, 0, 0, 0, 0, 0, 0, 0, 0, 0, 0]"
  let ?m = "ipv6_addr [0xff, 0xff, 0xff, 0xff, 0, 0, 0, 0, 0, 0, 0, 0, 0, 0, 0, 0]"
  let ?a1 = "ipv6_addr [0x20, 0x01, 0x0d, 0xb8, 0, 0, 0, 0, 0, 0, 0, 0, 0, 0, 0, 1]"
  let ?a2 = "ipv6_addr [0x20, 0x01, 0x0d, 0xb9, 0, 0, 0, 0, 0, 0, 0, 0, 0, 0, 0, 1]"
  let ?u = "\<lparr>sa_family = AF_UNIX, sin_port = 0, sin_addr = 0, sin6_addr = []\<rparr>"
  have 1: "rangeSockAddr ?a1 ?n ?m = 1"
    using rangeSockAddr_INET6_correct [of ?a1 ?n ?m 0 "[]" "[]" "[]"]
    by (simp add: ipv6_addr_def IN6_IS_ADDR_V4MAPPED_def all_less_16)
  have 2: "rangeSockAddr ?a2 ?n ?m = 0"
    using rangeSockAddr_INET6_correct [of ?a2 ?n ?m 0 "[]" "[]" "[]"]
    by (simp add: ipv6_addr_def IN6_IS_ADDR_V4MAPPED_def all_less_16)
  have 3: "range6_loop 3 [0x20, 0x01, 0x0d, 0xb9] [0x20, 0x01, 0x0d, 0xb8] [0xff, 0xff, 0xff, 0xff] = 0"
    using rangeSockAddr_INET6_correct
      [of ?u ?n ?m 3 "[0x20, 0x01, 0x0d, 0xb9]" "[0x20, 0x01, 0x0d, 0xb8]" "[0xff, 0xff, 0xff, 0xff]"]
    by simp
  have 4: "rangeSockAddr ?u (ipv4_addr LittleEndian [10, 0, 0, 0]) (ipv4_addr LittleEndian [255, 0, 0, 0]) = 0"
    using rangeSockAddr_INET6_correct
      [of ?u "ipv4_addr LittleEndian [10, 0, 0, 0]" "ipv4_addr LittleEndian [255, 0, 0, 0]" 0 "[]" "[]" "[]"]
    by simp
  from 1 2 3 4 show ?thesis by blast
qed

text \<open>
  C2. The mapped fallback converts an IPv4-mapped address with \<open>convSockAddr6to4\<close> and
  returns 1 when \<open>rangeSockAddrAF_INET\<close> accepts the result (lemma
  \<open>rangeSockAddrAF_INET6_submatch\<close>). On a little-endian host the converted address
  is byte-swapped, so \<open>::ffff:10.1.2.3\<close> is not matched by the IPv4 rule
  10.0.0.0/255.0.0.0; on a big-endian host it is.
\<close>

theorem rangeSockAddr_v4mapped_little_endian:
  "rangeSockAddr (ipv6_addr (v4mapped [10, 1, 2, 3])) (ipv4_addr LittleEndian [10, 0, 0, 0])
     (ipv4_addr LittleEndian [255, 0, 0, 0]) = 0
   \<and> rangeSockAddr (ipv6_addr (v4mapped [10, 1, 2, 3])) (ipv4_addr BigEndian [10, 0, 0, 0])
     (ipv4_addr BigEndian [255, 0, 0, 0]) = 1"
  by (simp add: rangeSockAddr_def rangeSockAddrAF_INET6_def rangeSockAddrAF_INET_def
      ipv4_addr_def ipv6_addr_def v4mapped_def convSockAddr6to4_def word_of_octets_def
      IN6_IS_ADDR_V4MAPPED_def addr4_uninit_def)

text \<open>
  C4. \<open>convSockAddr6to4\<close> keeps the port and stores as \<open>s_addr\<close> the number whose
  big-endian digits are the last four octets. That is the stored form of the IPv4
  address \<open>a.b.c.d\<close> on a big-endian host only: on a little-endian host it is the
  stored form of \<open>d.c.b.a\<close>, and the conversion of \<open>::ffff:10.1.2.3\<close> differs from
  the address 10.1.2.3 that \<open>rangeSockAddrAF_INET\<close> compares.
\<close>

theorem convSockAddr6to4_byte_order:
  "sin_addr (convSockAddr6to4 (ipv6_addr (v4mapped [a, b, c, d])) dst)
     = sin_addr (ipv4_addr BigEndian [a, b, c, d])
   \<and> sin_addr (convSockAddr6to4 (ipv6_addr (v4mapped [a, b, c, d])) dst)
     = sin_addr (ipv4_addr LittleEndian [d, c, b, a])
   \<and> sin_port (convSockAddr6to4 src dst) = sin_port src
   \<and> sin_addr (convSockAddr6to4 (ipv6_addr (v4mapped [10, 1, 2, 3])) dst) = 0x0A010203
   \<and> sin_addr (ipv4_addr LittleEndian [10, 1, 2, 3]) = 0x0302010A"
  by (simp add: convSockAddr6to4_def ipv6_addr_def v4mapped_def ipv4_addr_def word_of_octets_def)

section \<open>Proofs: text codec\<close>

lemma scan_family_colon:
  "scan_family src = (if CHR '':'' \<in> set src then AF_INET6 else AF_INET)"
  by (induction src) auto

lemma write_at_props:
  assumes "write_at mem off bytes = Some mem'"
  shows "length mem' = length mem"
    and "off + length bytes \<le> n \<Longrightarrow> drop n mem' = drop n mem"
    and "mem' = take off mem @ bytes @ drop (off + length bytes) mem"
proof -
  from assms have le: "off + length bytes \<le> length mem"
    and eq: "mem' = take off mem @ bytes @ drop (off + length bytes) mem"
    by (auto simp: write_at_def split: if_splits)
  show "mem' = take off mem @ bytes @ drop (off + length bytes) mem" by (rule eq)
  from le show "length mem' = length mem" by (simp add: eq)
  show "drop n mem' = drop n mem" if "off + length bytes \<le> n"
  proof -
    from that le have "drop n mem' = drop (n - off - length bytes) (drop (off + length bytes) mem)"
      by (simp add: eq)
    also have "\<dots> = drop n mem" using that by simp
    finally show ?thesis .
  qed
qed

lemma write_at_0:
  assumes "length bytes \<le> length mem"
  shows "write_at mem 0 bytes = Some (bytes @ drop (length bytes) mem)"
  using assms by (simp add: write_at_def)

lemma inet_ntop_fits:
  assumes "length (ntop_text P af src) < cnt" and "cnt \<le> length dst"
  shows "inet_ntop P af src dst cnt
         = Some (ntop_text P af src @ [NUL] @ drop (length (ntop_text P af src) + 1) dst)"
  using assms by (simp add: inet_ntop_def write_at_def Let_def)

lemma prefix_buffer_props:
  assumes "length s < cnt" and "cnt \<le> length mem"
  shows "length (s @ [NUL] @ drop (length s + 1) mem) = length mem"
    and "drop cnt (s @ [NUL] @ drop (length s + 1) mem) = drop cnt mem"
    and "NUL \<in> set (take cnt (s @ [NUL] @ drop (length s + 1) mem))"
proof -
  from assms show "length (s @ [NUL] @ drop (length s + 1) mem) = length mem" by simp
  from assms have "drop cnt (s @ [NUL] @ drop (length s + 1) mem)
                 = drop (cnt - length s - 1) (drop (length s + 1) mem)"
    by (simp add: drop_Cons')
  also from assms have "\<dots> = drop cnt mem" by simp
  finally show "drop cnt (s @ [NUL] @ drop (length s + 1) mem) = drop cnt mem" .
  from assms have "take cnt (s @ [NUL] @ drop (length s + 1) mem)
                 = s @ NUL # take (cnt - length s - 1) (drop (length s + 1) mem)"
    by (simp add: take_Cons')
  then show "NUL \<in> set (take cnt (s @ [NUL] @ drop (length s + 1) mem))" by simp
qed

lemma takeWhile_upto_NUL:
  "takeWhile (\<lambda>c. c \<noteq> NUL) (xs @ NUL # rest) = takeWhile (\<lambda>c. c \<noteq> NUL) xs"
  by (induction xs) auto

lemma c_str_prefix:
  assumes "NUL \<notin> set s"
  shows "c_str (s @ [NUL] @ rest) = s"
proof -
  have "takeWhile (\<lambda>c. c \<noteq> NUL) s = s"
    using assms by (induction s) auto
  then show ?thesis by (simp add: c_str_def takeWhile_upto_NUL)
qed

lemma strcpy_mem_overlap:
  assumes "NUL \<notin> set s" and "length pre = k" and "k \<le> length s"
  shows "strcpy_mem (pre @ s @ NUL # rest) 0 k = None"
proof -
  have "takeWhile (\<lambda>c. c \<noteq> NUL) s = s"
    using assms(1) by (induction s) auto
  then have "takeWhile (\<lambda>c. c \<noteq> NUL) (s @ NUL # rest) = s"
    by (simp add: takeWhile_upto_NUL)
  with assms(2,3) show ?thesis
    by (simp add: strcpy_mem_def regions_overlap_def)
qed

lemma strcpy_mem_disjoint:
  assumes "NUL \<notin> set s" and "length pre = k" and "length s < k"
  shows "strcpy_mem (pre @ s @ NUL # rest) 0 k
         = Some (s @ NUL # drop (length s + 1) (pre @ s @ NUL # rest))"
proof -
  have "takeWhile (\<lambda>c. c \<noteq> NUL) s = s"
    using assms(1) by (induction s) auto
  then have "takeWhile (\<lambda>c. c \<noteq> NUL) (s @ NUL # rest) = s"
    by (simp add: takeWhile_upto_NUL)
  with assms(2,3) show ?thesis
    by (simp add: strcpy_mem_def regions_overlap_def write_at_def)
qed

lemma SockAddr_ntop_unrecognized:
  assumes "sa_family sa \<noteq> AF_INET" and "sa_family sa \<noteq> AF_INET6"
  shows "SockAddr_ntop P sa dst cnt v4conv = write_at dst 0 [NUL]"
  using assms by (cases "sa_family sa") (simp_all add: SockAddr_ntop_def)

text \<open>
  What \<open>SockAddr_ntop\<close> does keep of the buffer contract. With a capacity of at
  least one byte (the default branch stores \<open>dst[0]\<close> whatever the capacity is) that
  also holds the host's text and its terminator when the family is IPv4 or IPv6, and
  no conversion of a mapped address asked for, nothing is stored behind the capacity
  and a terminator lies within it; for an unrecognised family the result is the
  empty string.
\<close>

lemma SockAddr_ntop_text_fits:
  assumes cnt: "0 < cnt" "cnt \<le> length dst"
    and fits: "sa_family sa = AF_INET \<or> sa_family sa = AF_INET6
               \<Longrightarrow> length (ntop_text P (sa_family sa) (addr_octets P sa)) < cnt"
    and noconv: "\<not> (sa_family sa = AF_INET6 \<and> v4conv \<noteq> 0 \<and> IN6_IS_ADDR_V4MAPPED (sin6_addr sa))"
  shows "\<exists>dst'. SockAddr_ntop P sa dst cnt v4conv = Some dst'
           \<and> length dst' = length dst
           \<and> drop cnt dst' = drop cnt dst
           \<and> NUL \<in> set (take cnt dst')
           \<and> (sa_family sa \<noteq> AF_INET \<and> sa_family sa \<noteq> AF_INET6 \<longrightarrow> c_str dst' = [])"
proof -
  consider (v4) "sa_family sa = AF_INET" | (v6) "sa_family sa = AF_INET6"
    | (other) "sa_family sa \<noteq> AF_INET" "sa_family sa \<noteq> AF_INET6"
    by blast
  then show ?thesis
  proof cases
    case v4
    let ?txt = "ntop_text P AF_INET (octets_of_s_addr (host_order P) (sin_addr sa))"
    from fits v4 have len: "length ?txt < cnt" by (simp add: addr_octets_def)
    have "SockAddr_ntop P sa dst cnt v4conv = Some (?txt @ [NUL] @ drop (length ?txt + 1) dst)"
      using inet_ntop_fits [OF len cnt(2)] v4 by (simp add: SockAddr_ntop_def)
    with prefix_buffer_props [OF len cnt(2)] v4 show ?thesis by simp
  next
    case v6
    let ?txt = "ntop_text P AF_INET6 (sin6_addr sa)"
    let ?dst1 = "?txt @ [NUL] @ drop (length ?txt + 1) dst"
    from fits v6 have len: "length ?txt < cnt" by (simp add: addr_octets_def)
    have n: "inet_ntop P AF_INET6 (sin6_addr sa) dst cnt = Some ?dst1"
      by (rule inet_ntop_fits [OF len cnt(2)])
    from noconv v6 have "\<not> (v4conv \<noteq> 0 \<and> IN6_IS_ADDR_V4MAPPED (sin6_addr sa))" by simp
    with n v6 have "SockAddr_ntop P sa dst cnt v4conv = Some ?dst1"
      by (auto simp: SockAddr_ntop_def)
    with prefix_buffer_props [OF len cnt(2)] v6 show ?thesis by simp
  next
    case other
    from cnt have len: "length ([] :: char list) < cnt" by simp
    from cnt have "write_at dst 0 [NUL] = Some ([] @ [NUL] @ drop (length ([] :: char list) + 1) dst)"
      by (simp add: write_at_def)
    with SockAddr_ntop_unrecognized [OF other]
    have w: "SockAddr_ntop P sa dst cnt v4conv = Some ([] @ [NUL] @ drop (length ([] :: char list) + 1) dst)"
      by simp
    have "c_str ([] @ [NUL] @ drop (length ([] :: char list) + 1) dst) = []"
      by (simp add: c_str_def)
    with w prefix_buffer_props [OF len cnt(2)] other show ?thesis by simp
  qed
qed

text \<open>
  When the capacity does not hold the text, \<open>inet_ntop\<close> fails and stores nothing;
  \<open>SockAddr_ntop\<close> does not look at its result. With no conversion asked for, the
  call returns the destination as it was, whether or not a terminator lies in it.
\<close>

lemma SockAddr_ntop_text_too_long:
  assumes "sa_family sa = AF_INET \<or> sa_family sa = AF_INET6"
    and "cnt \<le> length (ntop_text P (sa_family sa) (addr_octets P sa))"
    and "\<not> (sa_family sa = AF_INET6 \<and> v4conv \<noteq> 0 \<and> IN6_IS_ADDR_V4MAPPED (sin6_addr sa))"
  shows "SockAddr_ntop P sa dst cnt v4conv = Some dst"
  using assms by (auto simp: SockAddr_ntop_def inet_ntop_def addr_octets_def Let_def)

lemma replicate_numeral:
  "replicate (numeral k) x = x # replicate (pred_numeral k) x"
  by (simp add: numeral_eq_Suc)

lemma ref_ntop6_mapped_example:
  "ref_ntop6 (v4mapped [10, 1, 2, 3]) = ''::ffff:10.1.2.3''"
  by (simp add: ref_ntop6_def v4mapped_def best_run_def better_def ref_ntop4_def dec_octet_def
      hex_group_def digit_char_def Let_def)

lemma ref_ntop4_example:
  "ref_ntop4 [10, 1, 2, 3] = ''10.1.2.3''"
  by (simp add: ref_ntop4_def dec_octet_def digit_char_def Let_def)

lemma ref_pton4_example:
  "ref_pton4 ''10.1.2.3'' = Some [10, 1, 2, 3]"
  by (simp add: ref_pton4_def)


lemma ref_pton6_mapped_example:
  "ref_pton6 ''::ffff:10.1.2.3'' = Some (v4mapped [10, 1, 2, 3])"
  by (simp add: ref_pton6_def pton6_finish_def xdigit_val_def v4mapped_def replicate_numeral)

lemma ref_pton6_garbage_example:
  "ref_pton6 ''10.1.2.3:x'' = None"
  by (simp add: ref_pton6_def pton6_finish_def xdigit_val_def)

lemma ref_host_simps:
  "host_order (ref_host e) = e"
  "ntop_text (ref_host e) AF_INET os = ref_ntop4 os"
  "ntop_text (ref_host e) AF_INET6 os = ref_ntop6 os"
  "pton_parse (ref_host e) AF_INET s = ref_pton4 s"
  "pton_parse (ref_host e) AF_INET6 s = ref_pton6 s"
  by (simp_all add: ref_host_def)

lemma octets_of_ipv4_addr_example:
  "octets_of_s_addr LittleEndian (sin_addr (ipv4_addr LittleEndian [10, 1, 2, 3])) = [10, 1, 2, 3]"
  by (simp add: ipv4_addr_def word_of_octets_def)

lemma SockAddr_pton_unfold:
  "SockAddr_pton P sa src =
     (case pton_parse P (family_by_colon src) src of
        None \<Rightarrow> (0, sa\<lparr>sa_family := family_by_colon src\<rparr>)
      | Some os \<Rightarrow>
          (1, if family_by_colon src = AF_INET6
              then sa\<lparr>sa_family := AF_INET6, sin6_addr := os\<rparr>
              else sa\<lparr>sa_family := AF_INET, sin_addr := s_addr_of_octets (host_order P) os\<rparr>))"
  by (simp add: SockAddr_pton_def scan_family_colon family_by_colon_def inet_pton_def Let_def
      split: option.splits)

text \<open>
  C9. \<open>SockAddr_pton\<close> takes the family from the text alone: \<open>AF_INET6\<close> when the
  text holds a colon, \<open>AF_INET\<close> otherwise. It hands the text to the parser of that
  family, returns 0 exactly when that parser rejects the text and 1 exactly when it
  accepts it, and then stores the parsed address in the payload of that family.
\<close>

theorem SockAddr_pton_family_by_colon:
  "sa_family (snd (SockAddr_pton P sa src)) = (if CHR '':'' \<in> set src then AF_INET6 else AF_INET)
   \<and> (fst (SockAddr_pton P sa src) = 0)
       = (pton_parse P (if CHR '':'' \<in> set src then AF_INET6 else AF_INET) src = None)
   \<and> (fst (SockAddr_pton P sa src) = 1)
       = (pton_parse P (if CHR '':'' \<in> set src then AF_INET6 else AF_INET) src \<noteq> None)
   \<and> SockAddr_pton P sa src =
       (case pton_parse P (family_by_colon src) src of
          None \<Rightarrow> (0, sa\<lparr>sa_family := family_by_colon src\<rparr>)
        | Some os \<Rightarrow>
            (1, if family_by_colon src = AF_INET6
                then sa\<lparr>sa_family := AF_INET6, sin6_addr := os\<rparr>
                else sa\<lparr>sa_family := AF_INET, sin_addr := s_addr_of_octets (host_order P) os\<rparr>))"
proof (intro conjI)
  show "sa_family (snd (SockAddr_pton P sa src)) = (if CHR '':'' \<in> set src then AF_INET6 else AF_INET)"
    by (simp add: SockAddr_pton_unfold family_by_colon_def split: option.splits)
  show "(fst (SockAddr_pton P sa src) = 0)
       = (pton_parse P (if CHR '':'' \<in> set src then AF_INET6 else AF_INET) src = None)"
    by (simp add: SockAddr_pton_unfold family_by_colon_def split: option.splits)
  show "(fst (SockAddr_pton P sa src) = 1)
       = (pton_parse P (if CHR '':'' \<in> set src then AF_INET6 else AF_INET) src \<noteq> None)"
    by (simp add: SockAddr_pton_unfold family_by_colon_def split: option.splits)
  show "SockAddr_pton P sa src =
       (case pton_parse P (family_by_colon src) src of
          None \<Rightarrow> (0, sa\<lparr>sa_family := family_by_colon src\<rparr>)
        | Some os \<Rightarrow>
            (1, if family_by_colon src = AF_INET6
                then sa\<lparr>sa_family := AF_INET6, sin6_addr := os\<rparr>
                else sa\<lparr>sa_family := AF_INET, sin_addr := s_addr_of_octets (host_order P) os\<rparr>))"
    by (rule SockAddr_pton_unfold)
qed

theorem SockAddr_pton_family_by_colon_witness:
  "SockAddr_pton (ref_host LittleEndian) unix_sa ''10.1.2.3''
     = (1, unix_sa\<lparr>sa_family := AF_INET, sin_addr := 0x0302010A\<rparr>)
   \<and> SockAddr_pton (ref_host LittleEndian) unix_sa ''::ffff:10.1.2.3''
     = (1, unix_sa\<lparr>sa_family := AF_INET6, sin6_addr := v4mapped [10, 1, 2, 3]\<rparr>)
   \<and> SockAddr_pton (ref_host LittleEndian) unix_sa ''10.1.2.3:x''
     = (0, unix_sa\<lparr>sa_family := AF_INET6\<rparr>)"
proof -
  have 1: "SockAddr_pton (ref_host LittleEndian) unix_sa ''10.1.2.3''
     = (1, unix_sa\<lparr>sa_family := AF_INET, sin_addr := 0x0302010A\<rparr>)"
    using SockAddr_pton_family_by_colon [of "ref_host LittleEndian" unix_sa "''10.1.2.3''"]
    by (simp add: family_by_colon_def ref_host_simps ref_pton4_example word_of_octets_def)
  have 2: "SockAddr_pton (ref_host LittleEndian) unix_sa ''::ffff:10.1.2.3''
     = (1, unix_sa\<lparr>sa_family := AF_INET6, sin6_addr := v4mapped [10, 1, 2, 3]\<rparr>)"
    using SockAddr_pton_family_by_colon [of "ref_host LittleEndian" unix_sa "''::ffff:10.1.2.3''"]
    by (simp add: family_by_colon_def ref_host_simps ref_pton6_mapped_example)
  have 3: "SockAddr_pton (ref_host LittleEndian) unix_sa ''10.1.2.3:x''
     = (0, unix_sa\<lparr>sa_family := AF_INET6\<rparr>)"
    using SockAddr_pton_family_by_colon [of "ref_host LittleEndian" unix_sa "''10.1.2.3:x''"]
    by (simp add: family_by_colon_def ref_host_simps ref_pton6_garbage_example)
  from 1 2 3 show ?thesis by blast
qed




text \<open>
  The round trip over any host: if the host's parser reads the text its printer gives
  for this address back to the same octets, with a colon in the text exactly for
  IPv6, then \<open>SockAddr_pton\<close> after \<open>SockAddr_ntop\<close> restores family and address.
\<close>

lemma SockAddr_pton_ntop_roundtrip_host:
  assumes fam: "sa_family sa = AF_INET \<or> sa_family sa = AF_INET6"
    and room: "length (ntop_text P (sa_family sa) (addr_octets P sa)) < cnt" "cnt \<le> length dst"
    and nonul: "NUL \<notin> set (ntop_text P (sa_family sa) (addr_octets P sa))"
    and colon: "(CHR '':'' \<in> set (ntop_text P (sa_family sa) (addr_octets P sa)))
                = (sa_family sa = AF_INET6)"
    and parse: "pton_parse P (sa_family sa) (ntop_text P (sa_family sa) (addr_octets P sa))
                = Some (addr_octets P sa)"
  shows "\<exists>dst'. SockAddr_ntop P sa dst cnt 0 = Some dst'
           \<and> c_str dst' = ntop_text P (sa_family sa) (addr_octets P sa)
           \<and> SockAddr_pton P out (c_str dst')
               = (1, if sa_family sa = AF_INET
                     then out\<lparr>sa_family := AF_INET, sin_addr := sin_addr sa\<rparr>
                     else out\<lparr>sa_family := AF_INET6, sin6_addr := sin6_addr sa\<rparr>)"
proof -
  let ?txt = "ntop_text P (sa_family sa) (addr_octets P sa)"
  let ?dst' = "?txt @ [NUL] @ drop (length ?txt + 1) dst"
  have n: "SockAddr_ntop P sa dst cnt 0 = Some ?dst'"
    using fam inet_ntop_fits [OF room]
    by (auto simp: SockAddr_ntop_def addr_octets_def)
  have c: "c_str ?dst' = ?txt"
    by (rule c_str_prefix [OF nonul])
  have f: "family_by_colon ?txt = sa_family sa"
    using fam colon by (auto simp: family_by_colon_def)
  have "SockAddr_pton P out ?txt
          = (1, if sa_family sa = AF_INET
                then out\<lparr>sa_family := AF_INET, sin_addr := sin_addr sa\<rparr>
                else out\<lparr>sa_family := AF_INET6, sin6_addr := sin6_addr sa\<rparr>)"
    using fam
  proof
    assume v4: "sa_family sa = AF_INET"
    with parse f show ?thesis
      by (simp add: SockAddr_pton_unfold addr_octets_def s_addr_octets_inverse)
  next
    assume v6: "sa_family sa = AF_INET6"
    with parse f show ?thesis
      by (simp add: SockAddr_pton_unfold addr_octets_def)
  qed
  with n c show ?thesis by simp
qed

section \<open>Proofs: the reference host, IPv4\<close>

lemma less_10_cases:
  assumes "d < (10::nat)"
  shows "d = 0 \<or> d = 1 \<or> d = 2 \<or> d = 3 \<or> d = 4 \<or> d = 5 \<or> d = 6 \<or> d = 7 \<or> d = 8 \<or> d = 9"
proof -
  from assms have "d \<in> set [0..<10]" by simp
  also have "[0..<10] = [0, 1, 2, 3, 4, 5, 6, 7, 8, 9::nat]"
    by (simp add: upt_rec)
  finally show ?thesis by simp
qed

lemma index_of_digit:
  "d < 10 \<Longrightarrow> index_of (digit_char d) ''0123456789'' = Some d"
  by (drule less_10_cases) (elim disjE, simp_all add: digit_char_def)

lemma digit_char_plain:
  "d < 10 \<Longrightarrow> digit_char d \<noteq> CHR '':'' \<and> digit_char d \<noteq> NUL \<and> digit_char d \<noteq> CHR ''.''"
  by (drule less_10_cases) (elim disjE, simp_all add: digit_char_def NUL_def)

lemma pton4_loop_digit:
  assumes "d < 10" and "saw \<longrightarrow> cur \<noteq> 0" and "cur * 10 + d \<le> 255"
  shows "pton4_loop (digit_char d # rest) done cur saw = pton4_loop rest done (cur * 10 + d) True"
  using assms by (auto simp: index_of_digit simp del: index_of.simps)

lemma pton4_loop_dec_octet:
  "pton4_loop (dec_octet b @ rest) done 0 False = pton4_loop rest done (unat b) True"
proof -
  define n where "n = unat b"
  have n: "n < 256" using unsigned_less [of b] by (simp add: n_def)
  consider (one) "n < 10" | (two) "10 \<le> n" "n < 100" | (three) "100 \<le> n"
    by linarith
  then show ?thesis
  proof cases
    case one
    then have d: "dec_octet b = [digit_char n]" by (simp add: dec_octet_def Let_def n_def)
    have "pton4_loop (digit_char n # rest) done 0 False = pton4_loop rest done (0 * 10 + n) True"
      using one by (intro pton4_loop_digit) (simp_all add: div_less_iff_less_mult div_greater_zero_iff)
    then show ?thesis by (simp add: d n_def)
  next
    case two
    then have d: "dec_octet b = [digit_char (n div 10), digit_char (n mod 10)]"
      by (simp add: dec_octet_def Let_def n_def)
    have "pton4_loop (digit_char (n div 10) # digit_char (n mod 10) # rest) done 0 False
          = pton4_loop (digit_char (n mod 10) # rest) done (0 * 10 + n div 10) True"
      using two by (intro pton4_loop_digit) (simp_all add: div_less_iff_less_mult div_greater_zero_iff)
    also have "\<dots> = pton4_loop (digit_char (n mod 10) # rest) done (n div 10) True"
      by simp
    also have "\<dots> = pton4_loop rest done (n div 10 * 10 + n mod 10) True"
      using n two by (intro pton4_loop_digit) (simp_all add: div_less_iff_less_mult div_greater_zero_iff)
    also have "n div 10 * 10 + n mod 10 = n" by simp
    finally show ?thesis by (simp add: d n_def)
  next
    case three
    then have d: "dec_octet b
        = [digit_char (n div 100), digit_char (n div 10 mod 10), digit_char (n mod 10)]"
      by (simp add: dec_octet_def Let_def n_def)
    have "n div 100 = n div 10 div 10" by (simp add: div_mult2_eq)
    then have 2: "n div 100 * 10 + n div 10 mod 10 = n div 10" by simp
    have "pton4_loop (digit_char (n div 100) # digit_char (n div 10 mod 10)
                        # digit_char (n mod 10) # rest) done 0 False
          = pton4_loop (digit_char (n div 10 mod 10) # digit_char (n mod 10) # rest) done
              (0 * 10 + n div 100) True"
      using three n by (intro pton4_loop_digit) (simp_all add: div_less_iff_less_mult div_greater_zero_iff)
    also have "\<dots> = pton4_loop (digit_char (n div 10 mod 10) # digit_char (n mod 10) # rest) done
              (n div 100) True"
      by simp
    also have "\<dots> = pton4_loop (digit_char (n mod 10) # rest) done
              (n div 100 * 10 + n div 10 mod 10) True"
      using three n by (intro pton4_loop_digit) (simp_all add: 2 div_less_iff_less_mult div_greater_zero_iff)
    also have "\<dots> = pton4_loop (digit_char (n mod 10) # rest) done (n div 10) True"
      by (simp only: 2)
    also have "\<dots> = pton4_loop rest done (n div 10 * 10 + n mod 10) True"
      using n three by (intro pton4_loop_digit) (simp_all add: div_less_iff_less_mult div_greater_zero_iff)
    also have "n div 10 * 10 + n mod 10 = n" by simp
    finally show ?thesis by (simp add: d n_def)
  qed
qed

lemma pton4_loop_dot:
  "pton4_loop (CHR ''.'' # rest) done cur True
   = (if length done = 3 then None else pton4_loop rest (done @ [cur]) 0 False)"
  by simp

lemma pton4_loop_end:
  "pton4_loop [] done cur True = (if length done = 3 then Some (done @ [cur]) else None)"
  by simp

lemma dec_octet_chars:
  "c \<in> set (dec_octet b) \<Longrightarrow> \<exists>d<10. c = digit_char d"
proof -
  assume "c \<in> set (dec_octet b)"
  then consider "c = digit_char (unat b div 100)" "100 \<le> unat b"
    | "c = digit_char (unat b div 10 mod 10)" | "c = digit_char (unat b mod 10)"
    by (auto simp: dec_octet_def Let_def split: if_splits)
  then show ?thesis
  proof cases
    case 1
    have "unat b < 256" using unsigned_less [of b] by simp
    then have "unat b div 100 < 10" by simp
    with 1 show ?thesis by blast
  next
    case 2
    have "unat b div 10 mod 10 < 10" by simp
    with 2 show ?thesis by blast
  next
    case 3
    have "unat b mod 10 < 10" by simp
    with 3 show ?thesis by blast
  qed
qed

lemma dec_octet_plain:
  assumes "c \<in> set (dec_octet b)"
  shows "c \<noteq> CHR '':'' \<and> c \<noteq> NUL \<and> c \<noteq> CHR ''.''"
proof -
  from dec_octet_chars [OF assms] obtain d where "d < 10" and "c = digit_char d" by blast
  with digit_char_plain [of d] show ?thesis by simp
qed

lemma dec_octet_length: "1 \<le> length (dec_octet b) \<and> length (dec_octet b) \<le> 3"
  by (simp add: dec_octet_def Let_def)

lemma pton4_loop_octet_dot:
  "length done < 3 \<Longrightarrow>
   pton4_loop (dec_octet b @ CHR ''.'' # rest) done 0 False
   = pton4_loop rest (done @ [unat b]) 0 False"
  by (simp add: pton4_loop_dec_octet del: pton4_loop.simps) simp

lemma pton4_loop_ntop4:
  "pton4_loop (ref_ntop4 [a, b, c, d]) [] 0 False = Some [unat a, unat b, unat c, unat d]"
proof -
  have "pton4_loop (ref_ntop4 [a, b, c, d]) [] 0 False
        = pton4_loop (dec_octet a @ CHR ''.'' # dec_octet b @ CHR ''.'' # dec_octet c
                        @ CHR ''.'' # dec_octet d) [] 0 False"
    by (simp add: ref_ntop4_def)
  also have "\<dots> = pton4_loop (dec_octet b @ CHR ''.'' # dec_octet c @ CHR ''.'' # dec_octet d)
                      ([] @ [unat a]) 0 False"
    by (rule pton4_loop_octet_dot) simp
  also have "\<dots> = pton4_loop (dec_octet c @ CHR ''.'' # dec_octet d) (([] @ [unat a]) @ [unat b]) 0 False"
    by (rule pton4_loop_octet_dot) simp
  also have "\<dots> = pton4_loop (dec_octet d @ []) ((([] @ [unat a]) @ [unat b]) @ [unat c]) 0 False"
    unfolding append_Nil2 by (rule pton4_loop_octet_dot) simp
  also have "\<dots> = pton4_loop [] ((([] @ [unat a]) @ [unat b]) @ [unat c]) (unat d) True"
    by (rule pton4_loop_dec_octet)
  also have "\<dots> = Some [unat a, unat b, unat c, unat d]"
    by simp
  finally show ?thesis .
qed

lemma ref_pton4_ntop4:
  "ref_pton4 (ref_ntop4 [a, b, c, d]) = Some [a, b, c, d]"
  by (simp add: ref_pton4_def pton4_loop_ntop4)

lemma ref_ntop4_plain:
  "CHR '':'' \<notin> set (ref_ntop4 [a, b, c, d])" "NUL \<notin> set (ref_ntop4 [a, b, c, d])"
  by (auto simp: ref_ntop4_def NUL_def dest: dec_octet_plain)

lemma ref_ntop4_length: "length (ref_ntop4 [a, b, c, d]) \<le> 15"
  using dec_octet_length [of a] dec_octet_length [of b] dec_octet_length [of c]
    dec_octet_length [of d]
  by (simp add: ref_ntop4_def)

section \<open>Proofs: the reference host, IPv6\<close>

declare pton6_loop.simps [simp del] pton4_loop.simps [simp del]

lemma less_16_cases:
  assumes "d < (16::nat)"
  shows "d = 0 \<or> d = 1 \<or> d = 2 \<or> d = 3 \<or> d = 4 \<or> d = 5 \<or> d = 6 \<or> d = 7 \<or> d = 8
     \<or> d = 9 \<or> d = 10 \<or> d = 11 \<or> d = 12 \<or> d = 13 \<or> d = 14 \<or> d = 15"
proof -
  from assms have "d \<in> set [0..<16]" by simp
  also have "[0..<16] = [0, 1, 2, 3, 4, 5, 6, 7, 8, 9, 10, 11, 12, 13, 14, 15::nat]"
    by (simp add: upt_rec)
  finally show ?thesis by simp
qed

lemma xdigit_val_digit:
  "d < 16 \<Longrightarrow> xdigit_val (digit_char d) = Some d"
  by (drule less_16_cases) (elim disjE, simp_all add: digit_char_def xdigit_val_def)

lemma xdigit_val_punct:
  "xdigit_val CHR '':'' = None" "xdigit_val CHR ''.'' = None"
  by (simp_all add: xdigit_val_def)

lemma digit_char_not_colon:
  "d < 16 \<Longrightarrow> digit_char d \<noteq> CHR '':'' \<and> digit_char d \<noteq> NUL"
  by (drule less_16_cases) (elim disjE, simp_all add: digit_char_def NUL_def)

lemma pton6_loop_digit:
  assumes "v \<le> 65535"
  shows "pton6_loop (digit_char (v mod 16) # rest) ct out cp saw (v div 16)
         = pton6_loop rest ct out cp True v"
proof -
  have "v mod 16 < 16" by simp
  then have x: "xdigit_val (digit_char (v mod 16)) = Some (v mod 16)"
    by (rule xdigit_val_digit)
  have "v div 16 * 16 + v mod 16 = v" by simp
  with assms x show ?thesis by (simp add: pton6_loop.simps)
qed

lemma pton6_loop_colon_saw:
  assumes "rest \<noteq> []" and "length out + 2 \<le> 16"
  shows "pton6_loop (CHR '':'' # rest) ct out cp True v
         = pton6_loop rest rest (out @ [v div 256, v mod 256]) cp False 0"
  using assms by (simp add: pton6_loop.simps xdigit_val_punct)

lemma pton6_loop_colon_first:
  "pton6_loop (CHR '':'' # rest) ct out None False v
   = pton6_loop rest rest out (Some (length out)) False v"
  by (simp add: pton6_loop.simps xdigit_val_punct)

lemma pton6_loop_end_saw:
  assumes "length out + 2 \<le> 16"
  shows "pton6_loop [] ct out cp True v = Some (out @ [v div 256, v mod 256], cp)"
  using assms by (simp add: pton6_loop.simps)

lemma pton6_loop_dot:
  assumes "length out + 4 \<le> 16"
  shows "pton6_loop (CHR ''.'' # rest) ct out cp saw v
         = (case pton4_loop ct [] 0 False of Some q \<Rightarrow> Some (out @ q, cp) | None \<Rightarrow> None)"
  using assms by (simp add: pton6_loop.simps xdigit_val_punct)

lemma hex_group_nonempty: "hex_group w \<noteq> []"
  by (simp add: hex_group_def)

lemma pton6_loop_hex_group:
  assumes "w < 65536"
  shows "pton6_loop (hex_group w @ rest) ct out cp saw 0 = pton6_loop rest ct out cp True w"
proof -
  define w1 where "w1 = w div 16"
  define w2 where "w2 = w1 div 16"
  define w3 where "w3 = w2 div 16"
  have d2: "w div 256 = w2" by (simp add: w1_def w2_def div_mult2_eq)
  have d3: "w div 4096 = w3" by (simp add: w1_def w2_def w3_def div_mult2_eq)
  have b: "w \<le> 65535" "w1 \<le> 65535" "w2 \<le> 65535" "w3 \<le> 65535"
    using assms by (simp_all add: w1_def w2_def w3_def le_trans [OF div_le_dividend])
  have s0: "pton6_loop (digit_char (w mod 16) # r) ct out cp sw w1
            = pton6_loop r ct out cp True w" for r sw
    unfolding w1_def by (rule pton6_loop_digit [OF b(1)])
  have s1: "pton6_loop (digit_char (w1 mod 16) # r) ct out cp sw w2
            = pton6_loop r ct out cp True w1" for r sw
    unfolding w2_def by (rule pton6_loop_digit [OF b(2)])
  have s2: "pton6_loop (digit_char (w2 mod 16) # r) ct out cp sw w3
            = pton6_loop r ct out cp True w2" for r sw
    unfolding w3_def by (rule pton6_loop_digit [OF b(3)])
  have s3: "pton6_loop (digit_char (w3 mod 16) # r) ct out cp sw (w3 div 16)
            = pton6_loop r ct out cp True w3" for r sw
    by (rule pton6_loop_digit [OF b(4)])
  have h: "hex_group w =
     (if 4096 \<le> w then [digit_char (w3 mod 16)] else [])
     @ (if 256 \<le> w then [digit_char (w2 mod 16)] else [])
     @ (if 16 \<le> w then [digit_char (w1 mod 16)] else [])
     @ [digit_char (w mod 16)]"
    by (simp add: hex_group_def d2 d3 w1_def)
  have z3: "w3 div 16 = 0" using assms unfolding d3 [symmetric] by simp
  have z2: "w < 4096 \<Longrightarrow> w2 = w2 mod 16 \<and> w3 = 0"
    unfolding d3 [symmetric] d2 [symmetric] by (simp add: div_less_iff_less_mult)
  have z1: "w < 256 \<Longrightarrow> w2 = 0" unfolding d2 [symmetric] by simp
  have z0: "w < 16 \<Longrightarrow> w1 = 0" unfolding w1_def by simp
  note s3' = s3 [unfolded z3]
  consider (a) "4096 \<le> w" | (b) "256 \<le> w" "w < 4096" | (c) "16 \<le> w" "w < 256" | (d) "w < 16"
    by linarith
  then show ?thesis
  proof cases
    case a
    then show ?thesis by (simp add: h s3' s2 s1 s0)
  next
    case b
    with z2 have "w3 = 0" by simp
    with b show ?thesis using s2 [of _ saw] by (simp add: h s1 s0)
  next
    case c
    with z1 have "w2 = 0" by simp
    with c show ?thesis using s1 [of _ saw] by (simp add: h s0)
  next
    case d
    with z0 have "w1 = 0" by simp
    with d show ?thesis using s0 [of _ saw] by (simp add: h)
  qed
qed

lemma length_bytes16 [simp]: "length (bytes16 ws) = 2 * length ws"
  by (induction ws) (simp_all add: bytes16_def)

lemma bytes16_Cons: "bytes16 (w # ws) = [w div 256, w mod 256] @ bytes16 ws"
  by (simp add: bytes16_def)

lemma bytes16_append: "bytes16 (xs @ ys) = bytes16 xs @ bytes16 ys"
  by (simp add: bytes16_def)

lemma bytes16_Nil [simp]: "bytes16 [] = []"
  by (simp add: bytes16_def)

lemma pton6_loop_colon_groups:
  assumes "\<forall>w\<in>set ws. w < 65536" and "length out + 2 * length ws \<le> 16"
  shows "\<exists>ct'. pton6_loop (colon_groups ws @ tail) ct out cp True v
               = pton6_loop tail ct' (out @ bytes16 (butlast (v # ws))) cp True (last (v # ws))"
  using assms
proof (induction ws arbitrary: v out ct)
  case Nil
  then show ?case by auto
next
  case (Cons w ws)
  let ?rest = "hex_group w @ colon_groups ws @ tail"
  let ?out = "out @ [v div 256, v mod 256]"
  from Cons.prems have w: "w < 65536" and ws: "\<forall>w\<in>set ws. w < 65536"
    and len: "length out + 2 \<le> 16" "length ?out + 2 * length ws \<le> 16"
    by simp_all
  have "pton6_loop (colon_groups (w # ws) @ tail) ct out cp True v
        = pton6_loop ?rest ?rest ?out cp False 0"
    using pton6_loop_colon_saw [of ?rest out ct cp v] len(1) hex_group_nonempty [of w]
    by simp
  also have "\<dots> = pton6_loop (colon_groups ws @ tail) ?rest ?out cp True w"
    by (rule pton6_loop_hex_group [OF w])
  finally have 1: "pton6_loop (colon_groups (w # ws) @ tail) ct out cp True v
        = pton6_loop (colon_groups ws @ tail) ?rest ?out cp True w" .
  from Cons.IH [OF ws len(2), of ?rest w]
  obtain ct' where 2: "pton6_loop (colon_groups ws @ tail) ?rest ?out cp True w
      = pton6_loop tail ct' (?out @ bytes16 (butlast (w # ws))) cp True (last (w # ws))"
    by blast
  have "?out @ bytes16 (butlast (w # ws)) = out @ bytes16 (butlast (v # w # ws))"
    by (simp add: bytes16_Cons)
  with 1 2 show ?case by auto
qed

lemma pton6_loop_bare_groups:
  assumes "\<forall>w\<in>set ws. w < 65536" and "ws \<noteq> []" and "length out + 2 * length ws \<le> 18"
  shows "\<exists>ct'. pton6_loop (bare_groups ws @ tail) ct out cp saw 0
               = pton6_loop tail ct' (out @ bytes16 (butlast ws)) cp True (last ws)"
proof -
  from assms(2) obtain w r where ws: "ws = w # r" by (cases ws) auto
  with assms have w: "w < 65536" and r: "\<forall>w\<in>set r. w < 65536"
    and len: "length out + 2 * length r \<le> 16"
    by simp_all
  have "pton6_loop (bare_groups ws @ tail) ct out cp saw 0
        = pton6_loop (colon_groups r @ tail) ct out cp True w"
    using pton6_loop_hex_group [OF w, of "colon_groups r @ tail" ct out cp saw]
    by (simp add: ws)
  with pton6_loop_colon_groups [OF r len, of tail ct cp w] show ?thesis
    by (auto simp: ws)
qed

lemma butlast_bytes16:
  "ws \<noteq> [] \<Longrightarrow> bytes16 (butlast ws) @ [last ws div 256, last ws mod 256] = bytes16 ws"
proof -
  assume "ws \<noteq> []"
  then have "ws = butlast ws @ [last ws]" by simp
  then have "bytes16 ws = bytes16 (butlast ws) @ bytes16 [last ws]"
    by (metis bytes16_append)
  then show ?thesis by (simp add: bytes16_def)
qed

lemma parse_bare_end:
  assumes "\<forall>w\<in>set ws. w < 65536" and "ws \<noteq> []" and "length out + 2 * length ws \<le> 16"
  shows "pton6_loop (bare_groups ws) ct out cp saw 0 = Some (out @ bytes16 ws, cp)"
proof -
  from assms(3) have "length out + 2 * length ws \<le> 18" by simp
  from pton6_loop_bare_groups [OF assms(1,2) this, of "[]" ct cp saw]
  obtain ct' where 1: "pton6_loop (bare_groups ws) ct out cp saw 0
      = pton6_loop [] ct' (out @ bytes16 (butlast ws)) cp True (last ws)"
    by auto
  from assms(2,3) have "length (out @ bytes16 (butlast ws)) + 2 \<le> 16"
    by (cases ws rule: rev_cases) simp_all
  from pton6_loop_end_saw [OF this, of ct' cp "last ws"] 1 butlast_bytes16 [OF assms(2)]
  show ?thesis by simp
qed

lemma parse_after_gap:
  assumes "\<forall>w\<in>set ws. w < 65536" and "length out + 2 * length ws \<le> 16"
  shows "pton6_loop (CHR '':'' # bare_groups ws) ct out None False 0
         = Some (out @ bytes16 ws, Some (length out))"
proof (cases "ws = []")
  case True
  then show ?thesis by (simp add: pton6_loop_colon_first) (simp add: pton6_loop.simps)
next
  case False
  from parse_bare_end [OF assms(1) False assms(2)] show ?thesis
    by (simp add: pton6_loop_colon_first)
qed

lemma parse_with_gap:
  assumes a: "\<forall>w\<in>set as. w < 65536" and b: "\<forall>w\<in>set bs. w < 65536"
    and ne: "as \<noteq> []" and len: "2 * length as + 2 * length bs \<le> 16"
  shows "pton6_loop (bare_groups as @ CHR '':'' # CHR '':'' # bare_groups bs) ct [] None False 0
         = Some (bytes16 as @ bytes16 bs, Some (2 * length as))"
proof -
  let ?tail = "CHR '':'' # CHR '':'' # bare_groups bs"
  from len have "length ([] :: nat list) + 2 * length as \<le> 18" by simp
  from pton6_loop_bare_groups [OF a ne this, of ?tail ct None False]
  obtain ct' where 1: "pton6_loop (bare_groups as @ ?tail) ct [] None False 0
      = pton6_loop ?tail ct' (bytes16 (butlast as)) None True (last as)"
    by auto
  from ne len have l2: "length (bytes16 (butlast as)) + 2 \<le> 16"
    by (cases as rule: rev_cases) simp_all
  have "pton6_loop ?tail ct' (bytes16 (butlast as)) None True (last as)
        = pton6_loop (CHR '':'' # bare_groups bs) (CHR '':'' # bare_groups bs)
            (bytes16 (butlast as) @ [last as div 256, last as mod 256]) None False 0"
    by (rule pton6_loop_colon_saw [OF _ l2]) simp
  also have "\<dots> = pton6_loop (CHR '':'' # bare_groups bs) (CHR '':'' # bare_groups bs)
            (bytes16 as) None False 0"
    by (simp only: butlast_bytes16 [OF ne])
  also have "\<dots> = Some (bytes16 as @ bytes16 bs, Some (length (bytes16 as)))"
    using len by (intro parse_after_gap [OF b]) simp
  finally show ?thesis using 1 by simp
qed

lemma groups16_bound: "w \<in> set (groups16 os) \<Longrightarrow> w < 65536"
proof (induction os arbitrary: w rule: groups16.induct)
  case (1 hi lo rest)
  have "unat hi < 256" "unat lo < 256"
    using unsigned_less [of hi] unsigned_less [of lo] by simp_all
  then have "256 * unat hi + unat lo < 65536" by simp
  with 1 show ?case by auto
qed simp_all

lemma length_groups16: "length (groups16 os) = length os div 2"
  by (induction os rule: groups16.induct) simp_all

lemma bytes16_groups16:
  "even (length os) \<Longrightarrow> map of_nat (bytes16 (groups16 os)) = os"
proof (induction os rule: groups16.induct)
  case (1 hi lo rest)
  have lo: "unat lo < 256" using unsigned_less [of lo] by simp
  then have "(256 * unat hi + unat lo) div 256 = unat hi"
    and "(256 * unat hi + unat lo) mod 256 = unat lo"
    by simp_all
  with 1 show ?case by (simp add: bytes16_Cons)
qed simp_all

lemma zero_run_sound:
  assumes "all = pre @ ws" and "length pre = i"
    and "\<forall>cb cl. cur = Some (cb, cl) \<longrightarrow> 1 \<le> cl \<and> cb + cl = i \<and> (\<forall>j. cb \<le> j \<and> j < i \<longrightarrow> all ! j = 0)"
    and "\<forall>bb bl. best = Some (bb, bl) \<longrightarrow> 1 \<le> bl \<and> bb + bl \<le> i \<and> (\<forall>j. bb \<le> j \<and> j < bb + bl \<longrightarrow> all ! j = 0)"
    and "zero_run ws i cur best = Some (b, l)"
  shows "1 \<le> l \<and> b + l \<le> length all \<and> (\<forall>j. b \<le> j \<and> j < b + l \<longrightarrow> all ! j = 0)"
  using assms
proof (induction ws arbitrary: i cur best pre)
  case Nil
  then have "cur = Some (b, l) \<or> best = Some (b, l)"
    by (auto simp: better_def split: option.splits if_splits)
  with Nil show ?case by auto
next
  case (Cons w ws)
  have all: "all = (pre @ [w]) @ ws" and len: "length (pre @ [w]) = i + 1"
    using Cons.prems(1,2) by simp_all
  have wi: "all ! i = w" using Cons.prems(1,2) by (simp add: nth_append)
  show ?case
  proof (cases "w = 0")
    case True
    let ?cur = "case cur of None \<Rightarrow> Some (i, 1) | Some (cb, cl) \<Rightarrow> Some (cb, cl + 1)"
    have c: "\<forall>cb cl. ?cur = Some (cb, cl) \<longrightarrow>
               1 \<le> cl \<and> cb + cl = i + 1 \<and> (\<forall>j. cb \<le> j \<and> j < i + 1 \<longrightarrow> all ! j = 0)"
    proof (intro allI impI)
      fix cb cl assume h: "?cur = Some (cb, cl)"
      show "1 \<le> cl \<and> cb + cl = i + 1 \<and> (\<forall>j. cb \<le> j \<and> j < i + 1 \<longrightarrow> all ! j = 0)"
      proof (cases cur)
        case None
        with h have "cb = i" "cl = 1" by simp_all
        with wi True show ?thesis by (auto simp: le_antisym less_Suc_eq_le)
      next
        case (Some p)
        with h obtain cl' where p: "cur = Some (cb, cl')" and cl: "cl = cl' + 1"
          by (cases p) auto
        from Cons.prems(3) p have 1: "1 \<le> cl'" "cb + cl' = i"
          and 2: "\<forall>j. cb \<le> j \<and> j < i \<longrightarrow> all ! j = 0" by auto
        have "\<forall>j. cb \<le> j \<and> j < i + 1 \<longrightarrow> all ! j = 0"
        proof (intro allI impI)
          fix j assume "cb \<le> j \<and> j < i + 1"
          then consider "cb \<le> j \<and> j < i" | "j = i" by linarith
          then show "all ! j = 0" using 2 wi True by cases auto
        qed
        with 1 cl show ?thesis by simp
      qed
    qed
    have b': "\<forall>bb bl. best = Some (bb, bl) \<longrightarrow>
               1 \<le> bl \<and> bb + bl \<le> i + 1 \<and> (\<forall>j. bb \<le> j \<and> j < bb + bl \<longrightarrow> all ! j = 0)"
      using Cons.prems(4) by auto
    from Cons.prems(5) True have "zero_run ws (i + 1) ?cur best = Some (b, l)" by simp
    from Cons.IH [OF all len c b' this] show ?thesis .
  next
    case False
    have c: "\<forall>cb cl. (None :: (nat \<times> nat) option) = Some (cb, cl) \<longrightarrow>
               1 \<le> cl \<and> cb + cl = i + 1 \<and> (\<forall>j. cb \<le> j \<and> j < i + 1 \<longrightarrow> all ! j = 0)"
      by simp
    have b': "\<forall>bb bl. better cur best = Some (bb, bl) \<longrightarrow>
               1 \<le> bl \<and> bb + bl \<le> i + 1 \<and> (\<forall>j. bb \<le> j \<and> j < bb + bl \<longrightarrow> all ! j = 0)"
    proof (intro allI impI)
      fix bb bl assume "better cur best = Some (bb, bl)"
      then have "cur = Some (bb, bl) \<or> best = Some (bb, bl)"
        by (auto simp: better_def split: option.splits if_splits)
      then show "1 \<le> bl \<and> bb + bl \<le> i + 1 \<and> (\<forall>j. bb \<le> j \<and> j < bb + bl \<longrightarrow> all ! j = 0)"
        using Cons.prems(3,4) by auto
    qed
    from Cons.prems(5) False have "zero_run ws (i + 1) None (better cur best) = Some (b, l)"
      by simp
    from Cons.IH [OF all len c b' this] show ?thesis .
  qed
qed

lemma best_run_sound:
  assumes "best_run ws = Some (b, l)"
  shows "2 \<le> l \<and> b + l \<le> length ws \<and> (\<forall>j. b \<le> j \<and> j < b + l \<longrightarrow> ws ! j = 0)"
proof -
  from assms have z: "zero_run ws 0 None None = Some (b, l)" and l: "2 \<le> l"
    by (auto simp: best_run_def split: option.splits if_splits)
  from zero_run_sound [of ws "[]" ws 0 None None b l] z
  have "b + l \<le> length ws \<and> (\<forall>j. b \<le> j \<and> j < b + l \<longrightarrow> ws ! j = 0)" by simp
  with l show ?thesis by simp
qed

lemma ntop6_loop_after:
  assumes "\<not> (best = Some (0, 6) \<or> (best = Some (0, 5) \<and> all ! 5 = 0xffff))"
    and "1 \<le> i" and "\<forall>b l. best = Some (b, l) \<longrightarrow> b + l \<le> i"
  shows "ntop6_loop os all best i ws
         = colon_groups ws
           @ (case best of None \<Rightarrow> [] | Some (b, l) \<Rightarrow> if b + l = 8 then '':'' else [])"
  using assms
proof (induction ws arbitrary: i)
  case Nil
  then show ?case by simp
next
  case (Cons w ws)
  from Cons.prems(2,3) have out: "\<not> (case best of None \<Rightarrow> False | Some (b, l) \<Rightarrow> b \<le> i \<and> i < b + l)"
    by (auto split: option.splits)
  from Cons.prems have "1 \<le> i + 1" and "\<forall>b l. best = Some (b, l) \<longrightarrow> b + l \<le> i + 1"
    by auto
  from Cons.IH [OF Cons.prems(1) this]
  have ih: "ntop6_loop os all best (i + 1) ws
         = colon_groups ws
           @ (case best of None \<Rightarrow> [] | Some (b, l) \<Rightarrow> if b + l = 8 then '':'' else [])" .
  from Cons.prems(2) have i0: "i \<noteq> 0" by simp
  from ih have ih': "ntop6_loop os all best (Suc i) ws
         = colon_groups ws
           @ (case best of None \<Rightarrow> [] | Some (b, l) \<Rightarrow> if b + l = 8 then '':'' else [])"
    by simp
  show ?case
    using out i0 Cons.prems(1) by (auto simp: ih')
qed

lemma ntop6_loop_in_run:
  assumes "b \<le> i" and "i < b + l" and "b + l - i \<le> length ws"
  shows "ntop6_loop os all (Some (b, l)) i ws
         = (if i = b then '':'' else [])
           @ ntop6_loop os all (Some (b, l)) (b + l) (drop (b + l - i) ws)"
  using assms
proof (induction ws arbitrary: i)
  case Nil
  then show ?case by simp
next
  case (Cons w ws)
  have step: "ntop6_loop os all (Some (b, l)) i (w # ws)
        = (if i = b then '':'' else []) @ ntop6_loop os all (Some (b, l)) (i + 1) ws"
    using Cons.prems(1,2) by simp
  show ?case
  proof (cases "i + 1 < b + l")
    case True
    with Cons.prems have "b \<le> i + 1" "b + l - (i + 1) \<le> length ws" by simp_all
    from Cons.IH [OF this(1) True this(2)] Cons.prems(1)
    have "ntop6_loop os all (Some (b, l)) (i + 1) ws
          = ntop6_loop os all (Some (b, l)) (b + l) (drop (b + l - (i + 1)) ws)"
      by simp
    moreover from True have "drop (b + l - i) (w # ws) = drop (b + l - (i + 1)) ws"
      by (simp add: drop_Cons')
    ultimately show ?thesis using step by simp
  next
    case False
    with Cons.prems(2) have e: "i + 1 = b + l" by simp
    then have "b + l - i = 1" by simp
    then have "drop (b + l - i) (w # ws) = ws" by simp
    with step e show ?thesis by simp
  qed
qed

lemma ntop6_loop_before:
  assumes "1 \<le> i" and "i \<le> b" and "b - i \<le> length ws"
  shows "ntop6_loop os all (Some (b, l)) i ws
         = colon_groups (take (b - i) ws) @ ntop6_loop os all (Some (b, l)) b (drop (b - i) ws)"
  using assms
proof (induction ws arbitrary: i)
  case Nil
  then show ?case by simp
next
  case (Cons w ws)
  show ?case
  proof (cases "i = b")
    case True
    then show ?thesis by simp
  next
    case False
    with Cons.prems have lt: "i < b" and b0: "b \<noteq> 0" by simp_all
    have step: "ntop6_loop os all (Some (b, l)) i (w # ws)
        = CHR '':'' # hex_group w @ ntop6_loop os all (Some (b, l)) (i + 1) ws"
      using lt b0 Cons.prems(1) by auto
    from lt Cons.prems have "1 \<le> i + 1" "i + 1 \<le> b" "b - (i + 1) \<le> length ws" by simp_all
    from Cons.IH [OF this]
    have ih: "ntop6_loop os all (Some (b, l)) (i + 1) ws
         = colon_groups (take (b - (i + 1)) ws)
           @ ntop6_loop os all (Some (b, l)) b (drop (b - (i + 1)) ws)" .
    from lt have t: "take (b - i) (w # ws) = w # take (b - (i + 1)) ws"
      and d: "drop (b - i) (w # ws) = drop (b - (i + 1)) ws"
      by (simp_all add: take_Cons' drop_Cons')
    show ?thesis unfolding step ih t d by simp
  qed
qed

lemma gap_text:
  "colon_groups bs @ (if bs = [] then '':'' else []) = CHR '':'' # bare_groups bs"
  by (cases bs) simp_all

lemma ntop6_loop_text_plain:
  assumes "ws \<noteq> []"
  shows "ntop6_loop os all None 0 ws = bare_groups ws"
proof -
  from assms obtain w r where ws: "ws = w # r" by (cases ws) auto
  have "ntop6_loop os all None 1 r = colon_groups r @ []"
    using ntop6_loop_after [of None all 1 os r] by simp
  then show ?thesis by (simp add: ws)
qed

lemma ntop6_loop_text_run:
  assumes len: "length ws = 8" and l: "1 \<le> l" and bl: "b + l \<le> 8"
    and ns: "\<not> (Some (b, l) = Some (0, 6) \<or> (Some (b, l) = Some (0, 5) \<and> all ! 5 = 0xffff))"
  shows "ntop6_loop os all (Some (b, l)) 0 ws
         = bare_groups (take b ws) @ CHR '':'' # CHR '':'' # bare_groups (drop (b + l) ws)"
proof -
  let ?best = "Some (b, l)"
  let ?bs = "drop (b + l) ws"
  from len bl have e: "(?bs = []) = (b + l = 8)" by auto
  have after: "ntop6_loop os all ?best (b + l) ?bs = CHR '':'' # bare_groups ?bs"
  proof -
    from l have "1 \<le> b + l" by simp
    from ntop6_loop_after [OF ns this, of os ?bs]
    have "ntop6_loop os all ?best (b + l) ?bs
          = colon_groups ?bs @ (if b + l = 8 then '':'' else [])"
      by simp
    also have "\<dots> = colon_groups ?bs @ (if ?bs = [] then '':'' else [])"
      by (simp only: e)
    finally show ?thesis by (simp only: gap_text)
  qed
  have run: "ntop6_loop os all ?best b (drop b ws) = CHR '':'' # CHR '':'' # bare_groups ?bs"
  proof -
    from len bl l have "b \<le> b" "b < b + l" "b + l - b \<le> length (drop b ws)" by simp_all
    from ntop6_loop_in_run [OF this, of os all]
    have "ntop6_loop os all ?best b (drop b ws)
          = '':'' @ ntop6_loop os all ?best (b + l) (drop l (drop b ws))"
      by simp
    also have "drop l (drop b ws) = ?bs" by (simp add: add.commute)
    finally show ?thesis by (simp add: after)
  qed
  show ?thesis
  proof (cases "b = 0")
    case True
    with run show ?thesis by simp
  next
    case False
    from len obtain w r where ws: "ws = w # r" by (cases ws) auto
    from False have step: "ntop6_loop os all ?best 0 (w # r)
        = hex_group w @ ntop6_loop os all ?best 1 r"
      by simp
    from False len bl l ws have "(1::nat) \<le> 1" "1 \<le> b" "b - 1 \<le> length r" by simp_all
    from ntop6_loop_before [OF this, of os all l]
    have before: "ntop6_loop os all ?best 1 r
          = colon_groups (take (b - 1) r) @ ntop6_loop os all ?best b (drop (b - 1) r)" .
    from False have d: "drop (b - 1) r = drop b ws" and t: "take b ws = w # take (b - 1) r"
      by (simp_all add: ws drop_Cons' take_Cons')
    have "ntop6_loop os all ?best 0 ws
          = hex_group w @ colon_groups (take (b - 1) r) @ ntop6_loop os all ?best b (drop b ws)"
      unfolding ws step before d [unfolded ws] ..
    also have "\<dots> = bare_groups (take b ws) @ CHR '':'' # CHR '':'' # bare_groups ?bs"
      unfolding run t by simp
    finally show ?thesis .
  qed
qed

lemma hex_group_Cons: "\<exists>d r. d < 16 \<and> hex_group w = digit_char d # r"
proof -
  have m: "x mod 16 < (16::nat)" for x by simp
  consider (a) "4096 \<le> w" | (b) "256 \<le> w" "w < 4096" | (c) "16 \<le> w" "w < 256" | (d) "w < 16"
    by linarith
  then show ?thesis
  proof cases
    case a
    then have "hex_group w = digit_char (w div 4096 mod 16)
        # [digit_char (w div 256 mod 16), digit_char (w div 16 mod 16), digit_char (w mod 16)]"
      by (simp add: hex_group_def)
    with m show ?thesis by blast
  next
    case b
    then have "hex_group w = digit_char (w div 256 mod 16)
        # [digit_char (w div 16 mod 16), digit_char (w mod 16)]"
      by (simp add: hex_group_def)
    with m show ?thesis by blast
  next
    case c
    then have "hex_group w = digit_char (w div 16 mod 16) # [digit_char (w mod 16)]"
      by (simp add: hex_group_def)
    with m show ?thesis by blast
  next
    case d
    then have "hex_group w = digit_char (w mod 16) # []"
      by (simp add: hex_group_def)
    with m show ?thesis by blast
  qed
qed

lemma bare_groups_start:
  assumes "ws \<noteq> []"
  shows "\<exists>c r. bare_groups ws @ tail = c # r \<and> c \<noteq> CHR '':''"
proof -
  from assms obtain w r where ws: "ws = w # r" by (cases ws) auto
  from hex_group_Cons [of w] obtain d r' where d: "d < 16" and h: "hex_group w = digit_char d # r'"
    by blast
  from digit_char_not_colon [OF d] have "digit_char d \<noteq> CHR '':''" by simp
  with h show ?thesis by (simp add: ws)
qed

lemma ref_pton6_plain_start:
  assumes "s = c # r" and "c \<noteq> CHR '':''"
  shows "ref_pton6 s = pton6_finish (pton6_loop s s [] None False 0)"
  using assms by (simp add: ref_pton6_def)

lemma ref_pton6_gap_start:
  "ref_pton6 (CHR '':'' # CHR '':'' # r)
   = pton6_finish (pton6_loop (CHR '':'' # r) (CHR '':'' # r) [] None False 0)"
  by (simp add: ref_pton6_def)

lemma bytes16_zeros: "bytes16 (replicate k 0) = replicate (2 * k) 0"
  by (induction k) (simp_all add: bytes16_Cons)

lemma zero_groups:
  assumes "\<forall>j. b \<le> j \<and> j < b + l \<longrightarrow> ws ! j = (0::nat)" and "b + l \<le> length ws"
  shows "take l (drop b ws) = replicate l 0"
proof (rule nth_equalityI)
  from assms(2) show "length (take l (drop b ws)) = length (replicate l (0::nat))" by simp
next
  fix i assume "i < length (take l (drop b ws))"
  then have i: "i < l" by simp
  with assms(2) have "take l (drop b ws) ! i = ws ! (b + i)" by simp
  also from assms(1) i have "\<dots> = 0" by simp
  finally show "take l (drop b ws) ! i = replicate l 0 ! i" using i by simp
qed

lemma gap_assemble:
  assumes len: "length ws = 8" and l: "1 \<le> l" and bl: "b + l \<le> 8"
    and z: "\<forall>j. b \<le> j \<and> j < b + l \<longrightarrow> ws ! j = (0::nat)"
  shows "pton6_finish (Some (bytes16 (take b ws) @ bytes16 (drop (b + l) ws), Some (2 * b)))
         = Some (map of_nat (bytes16 ws))"
proof -
  define oa where "oa = bytes16 (take b ws)"
  define ob where "ob = bytes16 (drop (b + l) ws)"
  from len bl have la: "length oa = 2 * b" and lb: "length ob = 2 * (8 - (b + l))"
    by (simp_all add: oa_def ob_def)
  from la lb l bl have lo: "length (oa @ ob) = 16 - 2 * l" by simp
  with l have ne: "length (oa @ ob) \<noteq> 16" by simp
  from lo l bl have gap: "16 - length (oa @ ob) = 2 * l" by simp
  from la have tk: "take (2 * b) (oa @ ob) = oa" and dr: "drop (2 * b) (oa @ ob) = ob"
    by simp_all
  have "ws = take b ws @ take l (drop b ws) @ drop (b + l) ws"
    by (metis add.commute append_take_drop_id drop_drop)
  also have "take l (drop b ws) = replicate l 0"
    using z len bl by (intro zero_groups) simp_all
  finally have "bytes16 ws = oa @ replicate (2 * l) 0 @ ob"
    unfolding oa_def ob_def by (metis bytes16_append bytes16_zeros)
  moreover have "pton6_finish (Some (oa @ ob, Some (2 * b)))
        = Some (map of_nat (take (2 * b) (oa @ ob) @ replicate (16 - length (oa @ ob)) 0
                            @ drop (2 * b) (oa @ ob)))"
    using ne by (simp add: pton6_finish_def)
  ultimately show ?thesis
    unfolding tk dr gap oa_def [symmetric] ob_def [symmetric] by simp
qed

lemma ntop6_roundtrip_general:
  assumes len: "length os = 16"
    and ns: "\<not> (best_run (groups16 os) = Some (0, 6)
                \<or> (best_run (groups16 os) = Some (0, 5) \<and> groups16 os ! 5 = 0xffff))"
  shows "ref_pton6 (ref_ntop6 os) = Some os"
proof -
  define ws where "ws = groups16 os"
  from len have l8: "length ws = 8" by (simp add: ws_def length_groups16)
  have bd: "\<forall>w\<in>set ws. w < 65536" by (simp add: ws_def groups16_bound)
  from len have os: "map of_nat (bytes16 ws) = os" unfolding ws_def by (intro bytes16_groups16) simp
  from l8 have ne: "ws \<noteq> []" by auto
  show ?thesis
  proof (cases "best_run ws")
    case None
    then have t: "ref_ntop6 os = bare_groups ws"
      using ntop6_loop_text_plain [OF ne] by (simp add: ref_ntop6_def ws_def [symmetric] Let_def)
    from bare_groups_start [OF ne, of "[]"] obtain c r where "bare_groups ws = c # r" "c \<noteq> CHR '':''"
      by auto
    then have "ref_pton6 (bare_groups ws)
               = pton6_finish (pton6_loop (bare_groups ws) (bare_groups ws) [] None False 0)"
      by (rule ref_pton6_plain_start)
    also have "\<dots> = pton6_finish (Some ([] @ bytes16 ws, None))"
      using l8 by (subst parse_bare_end [OF bd ne]) simp_all
    also have "\<dots> = Some (map of_nat (bytes16 ws))"
      using l8 by (simp add: pton6_finish_def)
    finally show ?thesis by (simp add: t os)
  next
    case (Some p)
    obtain b l where p: "p = (b, l)" by (cases p)
    with Some have best: "best_run ws = Some (b, l)" by simp
    from best_run_sound [OF best] l8
    have l2: "2 \<le> l" and bl: "b + l \<le> 8"
      and z: "\<forall>j. b \<le> j \<and> j < b + l \<longrightarrow> ws ! j = 0"
      by simp_all
    from l2 have l1: "1 \<le> l" by simp
    let ?A = "take b ws" and ?B = "drop (b + l) ws"
    from ns best have ns': "\<not> (Some (b, l) = Some (0, 6) \<or> (Some (b, l) = Some (0, 5) \<and> ws ! 5 = 0xffff))"
      by (auto simp: ws_def)
    have t: "ref_ntop6 os = bare_groups ?A @ CHR '':'' # CHR '':'' # bare_groups ?B"
      using ntop6_loop_text_run [OF l8 l1 bl ns', of os] best
      by (simp add: ref_ntop6_def ws_def [symmetric] Let_def)
    have bA: "\<forall>w\<in>set ?A. w < 65536" and bB: "\<forall>w\<in>set ?B. w < 65536"
      using bd by (auto dest: in_set_takeD in_set_dropD)
    from l8 bl have lA: "length ?A = b" by simp
    have fin: "pton6_finish (Some (bytes16 ?A @ bytes16 ?B, Some (2 * length ?A)))
               = Some (map of_nat (bytes16 ws))"
      unfolding lA by (rule gap_assemble [OF l8 l1 bl z])
    have "ref_pton6 (bare_groups ?A @ CHR '':'' # CHR '':'' # bare_groups ?B)
          = pton6_finish (Some (bytes16 ?A @ bytes16 ?B, Some (2 * length ?A)))"
    proof (cases "b = 0")
      case True
      have "ref_pton6 (CHR '':'' # CHR '':'' # bare_groups ?B)
            = pton6_finish (pton6_loop (CHR '':'' # bare_groups ?B) (CHR '':'' # bare_groups ?B)
                 [] None False 0)"
        by (rule ref_pton6_gap_start)
      also have "\<dots> = pton6_finish (Some ([] @ bytes16 ?B, Some (length ([] :: nat list))))"
        using l8 by (subst parse_after_gap [OF bB]) simp_all
      finally show ?thesis using True by simp
    next
      case False
      with l8 bl have neA: "?A \<noteq> []" by auto
      let ?s = "bare_groups ?A @ CHR '':'' # CHR '':'' # bare_groups ?B"
      from bare_groups_start [OF neA, of "CHR '':'' # CHR '':'' # bare_groups ?B"]
      obtain c r where "?s = c # r" "c \<noteq> CHR '':''" by auto
      then have "ref_pton6 ?s = pton6_finish (pton6_loop ?s ?s [] None False 0)"
        by (rule ref_pton6_plain_start)
      also have "\<dots> = pton6_finish (Some (bytes16 ?A @ bytes16 ?B, Some (2 * length ?A)))"
        using l8 bl by (subst parse_with_gap [OF bA bB neA]) simp_all
      finally show ?thesis .
    qed
    with fin show ?thesis by (simp add: t os)
  qed
qed

lemma pton6_loop_digit_step:
  assumes "d < 16" and "v * 16 + d \<le> 65535"
  shows "pton6_loop (digit_char d # rest) ct out cp saw v
         = pton6_loop rest ct out cp True (v * 16 + d)"
  using assms by (simp add: pton6_loop.simps xdigit_val_digit)

lemma pton6_loop_dec_octet:
  "\<exists>v. pton6_loop (dec_octet b @ rest) ct out cp saw 0 = pton6_loop rest ct out cp True v"
proof -
  define n where "n = unat b"
  have n: "n < 256" using unsigned_less [of b] by (simp add: n_def)
  have d: "n mod 10 < 16" "n div 10 mod 10 < 16" "n div 100 < 16"
    and q: "n mod 10 \<le> 9" "n div 10 mod 10 \<le> 9" "n div 100 \<le> 9"
    using n by (simp_all add: div_less_iff_less_mult less_Suc_eq_le [symmetric])
  have s: "pton6_loop (digit_char x # r) ct out cp sw v
           = pton6_loop r ct out cp True (v * 16 + x)" if "x \<le> 9" "v \<le> 255" for x r sw v
    using that by (intro pton6_loop_digit_step) simp_all
  consider (one) "n < 10" | (two) "10 \<le> n" "n < 100" | (three) "100 \<le> n"
    by linarith
  then show ?thesis
  proof cases
    case one
    then have e: "dec_octet b = [digit_char (n mod 10)]"
      by (simp add: dec_octet_def Let_def n_def)
    have "pton6_loop (digit_char (n mod 10) # rest) ct out cp saw 0
          = pton6_loop rest ct out cp True (0 * 16 + n mod 10)"
      by (rule s [OF q(1)]) simp
    then show ?thesis unfolding e by auto
  next
    case two
    then have e: "dec_octet b = [digit_char (n div 10 mod 10), digit_char (n mod 10)]"
      by (simp add: dec_octet_def Let_def n_def)
    have "pton6_loop (digit_char (n div 10 mod 10) # digit_char (n mod 10) # rest) ct out cp saw 0
          = pton6_loop (digit_char (n mod 10) # rest) ct out cp True (0 * 16 + n div 10 mod 10)"
      by (rule s [OF q(2)]) simp
    also have "\<dots> = pton6_loop rest ct out cp True ((0 * 16 + n div 10 mod 10) * 16 + n mod 10)"
      using q(2) by (intro s [OF q(1)]) simp
    finally show ?thesis unfolding e by auto
  next
    case three
    then have e: "dec_octet b
        = [digit_char (n div 100), digit_char (n div 10 mod 10), digit_char (n mod 10)]"
      by (simp add: dec_octet_def Let_def n_def)
    have "pton6_loop (digit_char (n div 100) # digit_char (n div 10 mod 10)
                        # digit_char (n mod 10) # rest) ct out cp saw 0
          = pton6_loop (digit_char (n div 10 mod 10) # digit_char (n mod 10) # rest) ct out cp True
              (0 * 16 + n div 100)"
      by (rule s [OF q(3)]) simp
    also have "\<dots> = pton6_loop (digit_char (n mod 10) # rest) ct out cp True
              ((0 * 16 + n div 100) * 16 + n div 10 mod 10)"
      using q(3) by (intro s [OF q(2)]) simp
    also have "\<dots> = pton6_loop rest ct out cp True
              (((0 * 16 + n div 100) * 16 + n div 10 mod 10) * 16 + n mod 10)"
      using q(2,3) by (intro s [OF q(1)]) simp
    finally show ?thesis unfolding e by auto
  qed
qed

lemma pton6_loop_dotted:
  assumes "length out + 4 \<le> 16"
  shows "pton6_loop (ref_ntop4 [a, b, c, d]) (ref_ntop4 [a, b, c, d]) out cp False 0
         = Some (out @ [unat a, unat b, unat c, unat d], cp)"
proof -
  let ?t = "ref_ntop4 [a, b, c, d]"
  let ?r = "dec_octet b @ ''.'' @ dec_octet c @ ''.'' @ dec_octet d"
  have t: "?t = dec_octet a @ CHR ''.'' # ?r" by (simp add: ref_ntop4_def)
  from pton6_loop_dec_octet [of a "CHR ''.'' # ?r" ?t out cp False]
  obtain v where "pton6_loop (dec_octet a @ CHR ''.'' # ?r) ?t out cp False 0
      = pton6_loop (CHR ''.'' # ?r) ?t out cp True v"
    by blast
  also have "\<dots> = (case pton4_loop ?t [] 0 False of Some q \<Rightarrow> Some (out @ q, cp) | None \<Rightarrow> None)"
    by (rule pton6_loop_dot [OF assms])
  also have "\<dots> = Some (out @ [unat a, unat b, unat c, unat d], cp)"
    by (simp add: pton4_loop_ntop4)
  finally show ?thesis unfolding t [symmetric] .
qed

lemma ref_ntop4_nonempty: "ref_ntop4 [a, b, c, d] \<noteq> []"
  by (simp add: ref_ntop4_def)

lemma leading_zero_groups:
  assumes len: "length os = 16" and k: "k \<le> 8"
    and z: "\<forall>j. j < k \<longrightarrow> groups16 os ! j = 0"
  shows "os = replicate (2 * k) 0 @ map of_nat (bytes16 (drop k (groups16 os)))"
proof -
  define ws where "ws = groups16 os"
  from len have l8: "length ws = 8" by (simp add: ws_def length_groups16)
  from len have os: "map of_nat (bytes16 ws) = os" unfolding ws_def by (intro bytes16_groups16) simp
  have "take k (drop 0 ws) = replicate k 0"
    using z k l8 by (intro zero_groups) (simp_all add: ws_def)
  then have tk: "take k ws = replicate k 0" by simp
  have "bytes16 ws = bytes16 (take k ws @ drop k ws)" by simp
  also have "\<dots> = replicate (2 * k) 0 @ bytes16 (drop k ws)"
    unfolding bytes16_append tk bytes16_zeros ..
  finally have "map of_nat (bytes16 ws)
      = (replicate (2 * k) 0 @ map of_nat (bytes16 (drop k ws)) :: octet list)"
    by simp
  with os show ?thesis unfolding ws_def by simp
qed

lemma ntop6_loop_at_6:
  "ntop6_loop os all (Some (0, l)) 6 (x # r)
   = (if 6 < l then ntop6_loop os all (Some (0, l)) 7 r
      else CHR '':'' # (if l = 6 \<or> (l = 5 \<and> all ! 5 = 0xffff) then ref_ntop4 (drop 12 os)
                        else hex_group x @ ntop6_loop os all (Some (0, l)) 7 r))"
  by simp

lemma ntop6_text_compat:
  assumes "length ws = 8"
  shows "ntop6_loop os all (Some (0, 6)) 0 ws = CHR '':'' # CHR '':'' # ref_ntop4 (drop 12 os)"
proof -
  from assms obtain x r where d: "drop 6 ws = x # r"
    by (cases "drop 6 ws") auto
  from assms have "(0::nat) \<le> 0" "(0::nat) < 0 + 6" "0 + 6 - 0 \<le> length ws" by simp_all
  from ntop6_loop_in_run [OF this, of os all]
  have "ntop6_loop os all (Some (0, 6)) 0 ws = CHR '':'' # ntop6_loop os all (Some (0, 6)) 6 (x # r)"
    by (simp add: d)
  then show ?thesis by (simp only: ntop6_loop_at_6) simp
qed

lemma ntop6_text_mapped:
  assumes "length ws = 8" and "all ! 5 = 0xffff"
  shows "ntop6_loop os all (Some (0, 5)) 0 ws
         = CHR '':'' # CHR '':'' # hex_group (ws ! 5) @ CHR '':'' # ref_ntop4 (drop 12 os)"
proof -
  from assms obtain x r where d6: "drop 6 ws = x # r"
    by (cases "drop 6 ws") auto
  from assms have "ws ! 5 # drop (Suc 5) ws = drop 5 ws"
    by (intro Cons_nth_drop_Suc) simp
  then have d5: "drop 5 ws = ws ! 5 # drop 6 ws" by simp
  from assms have "(0::nat) \<le> 0" "(0::nat) < 0 + 5" "0 + 5 - 0 \<le> length ws" by simp_all
  from ntop6_loop_in_run [OF this, of os all]
  have "ntop6_loop os all (Some (0, 5)) 0 ws
        = CHR '':'' # ntop6_loop os all (Some (0, 5)) 5 (ws ! 5 # x # r)"
    by (simp add: d5 d6)
  also have "ntop6_loop os all (Some (0, 5)) 5 (ws ! 5 # x # r)
        = CHR '':'' # hex_group (ws ! 5) @ ntop6_loop os all (Some (0, 5)) 6 (x # r)"
    by simp
  finally show ?thesis using assms(2) by (simp only: ntop6_loop_at_6) simp
qed

lemma length_4_list: "length xs = 4 \<Longrightarrow> \<exists>a b c d. xs = [a, b, c, d]"
  by (auto simp: numeral_eq_Suc length_Suc_conv)

lemma drop12:
  assumes "length (os :: octet list) = 16"
  shows "\<exists>a b c d. drop 12 os = [a, b, c, d]"
  using assms by (intro length_4_list) simp

lemma ref_pton6_compat_text:
  assumes "length q = 4"
  shows "ref_pton6 (CHR '':'' # CHR '':'' # ref_ntop4 q) = Some (replicate 12 0 @ q)"
proof -
  from length_4_list [OF assms] obtain a b c d where q: "q = [a, b, c, d]" by blast
  let ?t = "ref_ntop4 [a, b, c, d]"
  have "ref_pton6 (CHR '':'' # CHR '':'' # ?t)
        = pton6_finish (pton6_loop (CHR '':'' # ?t) (CHR '':'' # ?t) [] None False 0)"
    by (rule ref_pton6_gap_start)
  also have "pton6_loop (CHR '':'' # ?t) (CHR '':'' # ?t) [] None False 0
        = pton6_loop ?t ?t [] (Some (length ([] :: nat list))) False 0"
    by (rule pton6_loop_colon_first)
  also have "\<dots> = Some ([] @ [unat a, unat b, unat c, unat d], Some (length ([] :: nat list)))"
    by (rule pton6_loop_dotted) simp
  finally show ?thesis
    by (simp add: q pton6_finish_def replicate_numeral)
qed

lemma ref_pton6_mapped_text:
  assumes "length q = 4"
  shows "ref_pton6 (CHR '':'' # CHR '':'' # hex_group 0xffff @ CHR '':'' # ref_ntop4 q)
         = Some (replicate 10 0 @ [0xff, 0xff] @ q)"
proof -
  from length_4_list [OF assms] obtain a b c d where q: "q = [a, b, c, d]" by blast
  let ?t = "ref_ntop4 [a, b, c, d]"
  let ?s = "hex_group 0xffff @ CHR '':'' # ?t"
  have "ref_pton6 (CHR '':'' # CHR '':'' # ?s)
        = pton6_finish (pton6_loop (CHR '':'' # ?s) (CHR '':'' # ?s) [] None False 0)"
    by (rule ref_pton6_gap_start)
  also have "pton6_loop (CHR '':'' # ?s) (CHR '':'' # ?s) [] None False 0
        = pton6_loop ?s ?s [] (Some (length ([] :: nat list))) False 0"
    by (rule pton6_loop_colon_first)
  also have "\<dots> = pton6_loop (CHR '':'' # ?t) ?s [] (Some (length ([] :: nat list))) True 0xffff"
    by (rule pton6_loop_hex_group) simp
  also have "\<dots> = pton6_loop ?t ?t ([] @ [0xffff div 256, 0xffff mod 256])
                      (Some (length ([] :: nat list))) False 0"
    by (rule pton6_loop_colon_saw) (simp_all add: ref_ntop4_nonempty)
  also have "\<dots> = Some (([] @ [0xffff div 256, 0xffff mod 256]) @ [unat a, unat b, unat c, unat d],
                        Some (length ([] :: nat list)))"
    by (rule pton6_loop_dotted) simp
  finally show ?thesis
    by (simp add: q pton6_finish_def replicate_numeral)
qed

lemma ref_ntop6_forms:
  assumes len: "length os = 16"
  shows "ref_ntop6 os = bare_groups (groups16 os)
       \<or> (\<exists>b l. 1 \<le> l \<and> b + l \<le> 8
             \<and> (\<forall>j. b \<le> j \<and> j < b + l \<longrightarrow> groups16 os ! j = 0)
             \<and> \<not> (Some (b, l) = Some (0, 6) \<or> (Some (b, l) = Some (0, 5) \<and> groups16 os ! 5 = 0xffff))
             \<and> best_run (groups16 os) = Some (b, l)
             \<and> ref_ntop6 os = bare_groups (take b (groups16 os))
                  @ CHR '':'' # CHR '':'' # bare_groups (drop (b + l) (groups16 os)))
       \<or> ((\<forall>j. j < 6 \<longrightarrow> groups16 os ! j = 0)
           \<and> ref_ntop6 os = CHR '':'' # CHR '':'' # ref_ntop4 (drop 12 os))
       \<or> ((\<forall>j. j < 5 \<longrightarrow> groups16 os ! j = 0) \<and> groups16 os ! 5 = 0xffff
           \<and> ref_ntop6 os = CHR '':'' # CHR '':'' # hex_group 0xffff @ CHR '':'' # ref_ntop4 (drop 12 os))"
proof -
  define ws where "ws = groups16 os"
  from len have l8: "length ws = 8" by (simp add: ws_def length_groups16)
  then have ne: "ws \<noteq> []" by auto
  have t: "ref_ntop6 os = ntop6_loop os ws (best_run ws) 0 ws"
    by (simp add: ref_ntop6_def ws_def Let_def)
  show ?thesis
  proof (cases "best_run ws")
    case None
    with t ntop6_loop_text_plain [OF ne, of os ws] show ?thesis by (simp add: ws_def)
  next
    case (Some p)
    obtain b l where p: "p = (b, l)" by (cases p)
    with Some have best: "best_run ws = Some (b, l)" by simp
    from best_run_sound [OF best] l8
    have l2: "2 \<le> l" and bl: "b + l \<le> 8"
      and z: "\<forall>j. b \<le> j \<and> j < b + l \<longrightarrow> ws ! j = 0"
      by simp_all
    from l2 have l1: "1 \<le> l" by simp
    consider (compat) "b = 0" "l = 6" | (mapped) "b = 0" "l = 5" "ws ! 5 = 0xffff"
      | (plain) "\<not> (Some (b, l) = Some (0, 6) \<or> (Some (b, l) = Some (0, 5) \<and> ws ! 5 = 0xffff))"
      by auto
    then show ?thesis
    proof cases
      case compat
      with t best ntop6_text_compat [OF l8, of os ws]
      have "ref_ntop6 os = CHR '':'' # CHR '':'' # ref_ntop4 (drop 12 os)" by simp
      moreover from z compat have "\<forall>j. j < 6 \<longrightarrow> ws ! j = 0" by simp
      ultimately show ?thesis by (simp add: ws_def)
    next
      case mapped
      with t best ntop6_text_mapped [OF l8 mapped(3), of os]
      have "ref_ntop6 os
            = CHR '':'' # CHR '':'' # hex_group 0xffff @ CHR '':'' # ref_ntop4 (drop 12 os)"
        by simp
      moreover from z mapped have "\<forall>j. j < 5 \<longrightarrow> ws ! j = 0" by simp
      ultimately show ?thesis using mapped(3) by (simp add: ws_def)
    next
      case plain
      from ntop6_loop_text_run [OF l8 l1 bl plain, of os] t best
      have "ref_ntop6 os = bare_groups (take b ws) @ CHR '':'' # CHR '':'' # bare_groups (drop (b + l) ws)"
        by simp
      with l1 bl z plain best show ?thesis unfolding ws_def by blast
    qed
  qed
qed

lemma ref_pton6_ntop6:
  assumes len: "length os = 16"
  shows "ref_pton6 (ref_ntop6 os) = Some os"
proof -
  define ws where "ws = groups16 os"
  define tail where "tail = (map of_nat (bytes16 (drop 6 ws)) :: octet list)"
  from len have l8: "length ws = 8" by (simp add: ws_def length_groups16)
  have lt: "length tail = 4" using l8 by (simp add: tail_def)
  from len have q: "length (drop 12 os) = 4" by simp
  have t: "ref_ntop6 os = ntop6_loop os ws (best_run ws) 0 ws"
    by (simp add: ref_ntop6_def ws_def Let_def)
  consider (compat) "best_run ws = Some (0, 6)"
    | (mapped) "best_run ws = Some (0, 5)" "ws ! 5 = 0xffff"
    | (plain) "\<not> (best_run ws = Some (0, 6) \<or> (best_run ws = Some (0, 5) \<and> ws ! 5 = 0xffff))"
    by blast
  then show ?thesis
  proof cases
    case plain
    then show ?thesis unfolding ws_def by (intro ntop6_roundtrip_general [OF len])
  next
    case compat
    from best_run_sound [OF compat] have z: "\<forall>j. j < 6 \<longrightarrow> groups16 os ! j = 0"
      by (simp add: ws_def)
    from t compat ntop6_text_compat [OF l8, of os ws]
    have form: "ref_ntop6 os = CHR '':'' # CHR '':'' # ref_ntop4 (drop 12 os)" by simp
    from leading_zero_groups [OF len _ z]
    have os: "os = replicate 12 0 @ tail"
      by (simp add: ws_def tail_def)
    have "drop 12 os = tail" by (subst os) simp
    with os have "os = replicate 12 0 @ drop 12 os" by simp
    with ref_pton6_compat_text [OF q] form show ?thesis by simp
  next
    case mapped
    from best_run_sound [OF mapped(1)] have z: "\<forall>j. j < 5 \<longrightarrow> groups16 os ! j = 0"
      by (simp add: ws_def)
    from t mapped ntop6_text_mapped [OF l8 mapped(2), of os]
    have form: "ref_ntop6 os
        = CHR '':'' # CHR '':'' # hex_group 0xffff @ CHR '':'' # ref_ntop4 (drop 12 os)"
      by simp
    from l8 have "ws ! 5 # drop (Suc 5) ws = drop 5 ws"
      by (intro Cons_nth_drop_Suc) simp
    with mapped(2) have d5: "drop 5 ws = 0xffff # drop 6 ws" by simp
    from leading_zero_groups [OF len _ z]
    have "os = replicate 10 0 @ map of_nat (bytes16 (drop 5 ws))"
      by (simp add: ws_def)
    then have os: "os = replicate 10 0 @ [0xff, 0xff] @ tail"
      by (simp add: d5 bytes16_Cons tail_def)
    have "drop 12 os = tail" by (subst os) simp
    with os have "os = replicate 10 0 @ [0xff, 0xff] @ drop 12 os" by simp
    with ref_pton6_mapped_text [OF q] form show ?thesis by simp
  qed
qed

lemma hex_group_chars:
  assumes "c \<in> set (hex_group w)"
  shows "\<exists>d<16. c = digit_char d"
proof -
  have m: "x mod 16 < (16::nat)" for x by simp
  from assms consider "c = digit_char (w div 4096 mod 16)" | "c = digit_char (w div 256 mod 16)"
    | "c = digit_char (w div 16 mod 16)" | "c = digit_char (w mod 16)"
    by (auto simp: hex_group_def split: if_splits)
  then show ?thesis using m by cases blast+
qed

lemma hex_group_length: "length (hex_group w) \<le> 4"
  by (simp add: hex_group_def)

lemma hex_group_no_NUL: "NUL \<notin> set (hex_group w)"
proof
  assume "NUL \<in> set (hex_group w)"
  from hex_group_chars [OF this] obtain d where "d < 16" and "NUL = digit_char d" by blast
  with digit_char_not_colon [of d] show False by simp
qed

lemma colon_groups_no_NUL: "NUL \<notin> set (colon_groups ws)"
  by (induction ws) (simp_all add: hex_group_no_NUL, simp add: NUL_def)

lemma bare_groups_no_NUL: "NUL \<notin> set (bare_groups ws)"
  by (cases ws) (simp_all add: hex_group_no_NUL colon_groups_no_NUL)

lemma colon_groups_length: "length (colon_groups ws) \<le> 5 * length ws"
  using hex_group_length by (induction ws) (simp_all add: le_Suc_eq add_le_mono)

lemma bare_groups_length: "length (bare_groups ws) \<le> 5 * length ws"
proof (cases ws)
  case Nil
  then show ?thesis by simp
next
  case (Cons w r)
  with hex_group_length [of w] colon_groups_length [of r] show ?thesis by simp
qed

lemma colon_groups_has_colon: "ws \<noteq> [] \<Longrightarrow> CHR '':'' \<in> set (colon_groups ws)"
  by (cases ws) simp_all

lemma ref_ntop4_no_NUL: "NUL \<notin> set (ref_ntop4 q)"
proof (cases "length q = 4")
  case True
  from length_4_list [OF this] obtain a b c d where "q = [a, b, c, d]" by blast
  then show ?thesis by (simp add: ref_ntop4_plain)
next
  case False
  then have "ref_ntop4 q = []"
    by (auto simp: ref_ntop4_def split: list.splits)
  then show ?thesis by simp
qed

lemma ref_ntop4_length_any: "length (ref_ntop4 q) \<le> 15"
proof (cases "length q = 4")
  case True
  from length_4_list [OF this] obtain a b c d where "q = [a, b, c, d]" by blast
  then show ?thesis by (simp add: ref_ntop4_length)
next
  case False
  then have "ref_ntop4 q = []"
    by (auto simp: ref_ntop4_def split: list.splits)
  then show ?thesis by simp
qed

lemma ref_ntop6_text:
  assumes len: "length os = 16"
  shows "NUL \<notin> set (ref_ntop6 os)"
    and "CHR '':'' \<in> set (ref_ntop6 os)"
    and "length (ref_ntop6 os) \<le> 45"
proof -
  define ws where "ws = groups16 os"
  from len have l8: "length ws = 8" by (simp add: ws_def length_groups16)
  from ref_ntop6_forms [OF len]
  consider (plain) "ref_ntop6 os = bare_groups ws"
    | (run) b l where "1 \<le> l" "b + l \<le> 8"
        "ref_ntop6 os = bare_groups (take b ws) @ CHR '':'' # CHR '':'' # bare_groups (drop (b + l) ws)"
    | (compat) "ref_ntop6 os = CHR '':'' # CHR '':'' # ref_ntop4 (drop 12 os)"
    | (mapped) "ref_ntop6 os
        = CHR '':'' # CHR '':'' # hex_group 0xffff @ CHR '':'' # ref_ntop4 (drop 12 os)"
    unfolding ws_def by blast
  then have "NUL \<notin> set (ref_ntop6 os) \<and> CHR '':'' \<in> set (ref_ntop6 os)
             \<and> length (ref_ntop6 os) \<le> 45"
  proof cases
    case plain
    from l8 obtain w r where ws: "ws = w # r" and r: "r \<noteq> []"
      by (cases ws; cases "tl ws") auto
    from bare_groups_length [of ws] l8 have "length (bare_groups ws) \<le> 45" by simp
    moreover have "CHR '':'' \<in> set (bare_groups ws)"
      using colon_groups_has_colon [OF r] by (simp add: ws)
    ultimately show ?thesis by (simp add: plain bare_groups_no_NUL)
  next
    case run
    have n: "CHR '':'' \<noteq> NUL" by (simp add: NUL_def)
    from bare_groups_length [of "take b ws"] bare_groups_length [of "drop (b + l) ws"] l8 run(1,2)
    have "length (bare_groups (take b ws)) + length (bare_groups (drop (b + l) ws)) \<le> 40"
      by simp
    then show ?thesis using n by (simp add: run(3) bare_groups_no_NUL)
  next
    case compat
    have n: "CHR '':'' \<noteq> NUL" by (simp add: NUL_def)
    from ref_ntop4_length_any [of "drop 12 os"] n show ?thesis
      by (simp add: compat ref_ntop4_no_NUL)
  next
    case mapped
    have n: "CHR '':'' \<noteq> NUL" by (simp add: NUL_def)
    from ref_ntop4_length_any [of "drop 12 os"] hex_group_length [of "0xffff"] n show ?thesis
      by (simp add: mapped ref_ntop4_no_NUL hex_group_no_NUL)
  qed
  then show "NUL \<notin> set (ref_ntop6 os)" and "CHR '':'' \<in> set (ref_ntop6 os)"
    and "length (ref_ntop6 os) \<le> 45"
    by simp_all
qed

lemma octets_of_s_addr_list:
  "\<exists>a b c d. octets_of_s_addr e w = [a, b, c, d]"
  by (cases e) simp_all

text \<open>
  C8. On the reference host, for every IPv4 address and every IPv6 address of 16
  octets: \<open>SockAddr_ntop\<close> with \<open>v4conv = 0\<close> into a buffer of at least
  \<open>INET6_ADDRSTRLEN\<close> bytes, followed by \<open>SockAddr_pton\<close> on the C string it left,
  returns 1 with the family tag and the address that were formatted. Lemma
  \<open>SockAddr_pton_ntop_roundtrip_host\<close> is the same statement for any host whose
  parser inverts its printer.
\<close>

theorem SockAddr_pton_ntop_roundtrip:
  assumes valid: "sa_family sa = AF_INET \<or> (sa_family sa = AF_INET6 \<and> length (sin6_addr sa) = 16)"
    and room: "INET6_ADDRSTRLEN \<le> cnt" "cnt \<le> length dst"
  shows "\<exists>dst'. SockAddr_ntop (ref_host e) sa dst cnt 0 = Some dst'
           \<and> SockAddr_pton (ref_host e) out (c_str dst')
               = (1, if sa_family sa = AF_INET
                     then out\<lparr>sa_family := AF_INET, sin_addr := sin_addr sa\<rparr>
                     else out\<lparr>sa_family := AF_INET6, sin6_addr := sin6_addr sa\<rparr>)"
proof -
  let ?P = "ref_host e"
  let ?txt = "ntop_text ?P (sa_family sa) (addr_octets ?P sa)"
  from valid have fam: "sa_family sa = AF_INET \<or> sa_family sa = AF_INET6" by blast
  have c: "length ?txt < cnt \<and> NUL \<notin> set ?txt
           \<and> (CHR '':'' \<in> set ?txt) = (sa_family sa = AF_INET6)
           \<and> pton_parse ?P (sa_family sa) ?txt = Some (addr_octets ?P sa)"
    using valid
  proof
    assume v4: "sa_family sa = AF_INET"
    from octets_of_s_addr_list [of e "sin_addr sa"] obtain a b c d
      where o: "octets_of_s_addr e (sin_addr sa) = [a, b, c, d]" by blast
    from ref_ntop4_length [of a b c d] room(1)
    have "length (ref_ntop4 [a, b, c, d]) < cnt" by (simp add: INET6_ADDRSTRLEN_def)
    then show ?thesis
      using ref_ntop4_plain [of a b c d] ref_pton4_ntop4 [of a b c d]
      by (simp add: v4 addr_octets_def ref_host_simps o)
  next
    assume v6: "sa_family sa = AF_INET6 \<and> length (sin6_addr sa) = 16"
    then have len: "length (sin6_addr sa) = 16" by simp
    from ref_ntop6_text(3) [OF len] room(1)
    have "length (ref_ntop6 (sin6_addr sa)) < cnt" by (simp add: INET6_ADDRSTRLEN_def)
    then show ?thesis
      using ref_ntop6_text(1,2) [OF len] ref_pton6_ntop6 [OF len] v6
      by (simp add: addr_octets_def ref_host_simps)
  qed
  from c have c1: "length ?txt < cnt" and c2: "NUL \<notin> set ?txt"
    and c3: "(CHR '':'' \<in> set ?txt) = (sa_family sa = AF_INET6)"
    and c4: "pton_parse ?P (sa_family sa) ?txt = Some (addr_octets ?P sa)"
    by blast+
  from SockAddr_pton_ntop_roundtrip_host [OF fam c1 room(2) c2 c3 c4, of out]
  show ?thesis by blast
qed

theorem SockAddr_pton_ntop_roundtrip_witness:
  "(\<exists>dst'. SockAddr_ntop (ref_host LittleEndian) (ipv4_addr LittleEndian [10, 1, 2, 3])
              (replicate 46 CHR ''Z'') 46 0 = Some dst'
          \<and> SockAddr_pton (ref_host LittleEndian) unix_sa (c_str dst')
              = (1, unix_sa\<lparr>sa_family := AF_INET, sin_addr := 0x0302010A\<rparr>))
   \<and> (\<exists>dst'. SockAddr_ntop (ref_host LittleEndian) (ipv6_addr (v4mapped [10, 1, 2, 3]))
              (replicate 46 CHR ''Z'') 46 0 = Some dst'
          \<and> SockAddr_pton (ref_host LittleEndian) unix_sa (c_str dst')
              = (1, unix_sa\<lparr>sa_family := AF_INET6, sin6_addr := v4mapped [10, 1, 2, 3]\<rparr>))"
proof -
  let ?a4 = "ipv4_addr LittleEndian [10, 1, 2, 3]"
  let ?a6 = "ipv6_addr (v4mapped [10, 1, 2, 3])"
  have r: "INET6_ADDRSTRLEN \<le> 46" "46 \<le> length (replicate 46 CHR ''Z'')"
    by (simp_all add: INET6_ADDRSTRLEN_def)
  have v4: "sa_family ?a4 = AF_INET \<or> (sa_family ?a4 = AF_INET6 \<and> length (sin6_addr ?a4) = 16)"
    by (simp add: ipv4_addr_def)
  have v6: "sa_family ?a6 = AF_INET \<or> (sa_family ?a6 = AF_INET6 \<and> length (sin6_addr ?a6) = 16)"
    by (simp add: ipv6_addr_def v4mapped_def)
  have f4: "sa_family ?a4 = AF_INET" "sin_addr ?a4 = 0x0302010A"
    by (simp_all add: ipv4_addr_def word_of_octets_def)
  have f6: "sa_family ?a6 \<noteq> AF_INET" "sin6_addr ?a6 = v4mapped [10, 1, 2, 3]"
    by (simp_all add: ipv6_addr_def)
  from SockAddr_pton_ntop_roundtrip [OF v4 r, of LittleEndian unix_sa]
  have 1: "\<exists>dst'. SockAddr_ntop (ref_host LittleEndian) ?a4 (replicate 46 CHR ''Z'') 46 0 = Some dst'
          \<and> SockAddr_pton (ref_host LittleEndian) unix_sa (c_str dst')
              = (1, unix_sa\<lparr>sa_family := AF_INET, sin_addr := 0x0302010A\<rparr>)"
    unfolding f4 by simp
  from SockAddr_pton_ntop_roundtrip [OF v6 r, of LittleEndian unix_sa]
  have 2: "\<exists>dst'. SockAddr_ntop (ref_host LittleEndian) ?a6 (replicate 46 CHR ''Z'') 46 0 = Some dst'
          \<and> SockAddr_pton (ref_host LittleEndian) unix_sa (c_str dst')
              = (1, unix_sa\<lparr>sa_family := AF_INET6, sin6_addr := v4mapped [10, 1, 2, 3]\<rparr>)"
    using f6 by simp
  from 1 2 show ?thesis by blast
qed

section \<open>Proofs: the buffer contract of \<open>SockAddr_ntop\<close>\<close>

text \<open>
  On the reference host a mapped address is printed as \<open>::ffff:\<close> and the dotted
  text of its last four octets, which is at least 7 characters long. So whenever the
  text of a mapped address fits and \<open>v4conv\<close> is set, \<open>strcpy(dst, dst + 7)\<close> at line
  197 reads at least 8 bytes from \<open>dst + 7\<close> on and stores them from \<open>dst\<close> on: source
  and destination overlap.
\<close>

lemma best_run_mapped:
  "best_run [0, 0, 0, 0, 0, 0xffff, x, y] = Some (0, 5)"
  by (simp add: best_run_def better_def)

lemma groups16_v4mapped:
  "groups16 (v4mapped [a, b, c, d])
   = [0, 0, 0, 0, 0, 0xffff, 256 * unat a + unat b, 256 * unat c + unat d]"
  by (simp add: v4mapped_def)

lemma ref_ntop6_v4mapped:
  "ref_ntop6 (v4mapped [a, b, c, d]) = ''::ffff:'' @ ref_ntop4 [a, b, c, d]"
proof -
  let ?ws = "[0, 0, 0, 0, 0, 0xffff, 256 * unat a + unat b, 256 * unat c + unat d] :: nat list"
  have "length ?ws = 8" and "?ws ! 5 = 0xffff" by simp_all
  from ntop6_text_mapped [OF this, of "v4mapped [a, b, c, d]"]
  have "ntop6_loop (v4mapped [a, b, c, d]) ?ws (Some (0, 5)) 0 ?ws
        = CHR '':'' # CHR '':'' # hex_group 0xffff @ CHR '':'' # ref_ntop4 (drop 12 (v4mapped [a, b, c, d]))"
    by simp
  moreover have "hex_group 0xffff = ''ffff''"
    by (simp add: hex_group_def digit_char_def)
  moreover have "drop 12 (v4mapped [a, b, c, d]) = [a, b, c, d]"
    by (simp add: v4mapped_def)
  ultimately show ?thesis
    by (simp add: ref_ntop6_def groups16_v4mapped best_run_mapped Let_def)
qed

lemma v4mapped_of_macro:
  assumes "length os = 16" and "IN6_IS_ADDR_V4MAPPED os"
  shows "\<exists>a b c d. os = v4mapped [a, b, c, d]"
proof -
  from drop12 [OF assms(1)] obtain a b c d where d: "drop 12 os = [a, b, c, d]" by blast
  from assms(1) have "os = take 10 os @ [os ! 10, os ! 11] @ drop 12 os"
    by (simp add: list_eq_iff_nth_eq nth_append less_Suc_eq numeral_eq_Suc)
  with assms(2) d have "os = v4mapped [a, b, c, d]"
    by (simp add: IN6_IS_ADDR_V4MAPPED_def v4mapped_def)
  then show ?thesis by blast
qed

lemma ref_ntop4_length_min: "7 \<le> length (ref_ntop4 [a, b, c, d])"
  using dec_octet_length [of a] dec_octet_length [of b] dec_octet_length [of c]
    dec_octet_length [of d]
  by (simp add: ref_ntop4_def)

lemma SockAddr_ntop_v4conv_overlap:
  assumes fam: "sa_family sa = AF_INET6"
    and mapped: "length (sin6_addr sa) = 16" "IN6_IS_ADDR_V4MAPPED (sin6_addr sa)"
    and conv: "v4conv \<noteq> 0"
    and room: "length (ref_ntop6 (sin6_addr sa)) < cnt" "cnt \<le> length dst"
  shows "SockAddr_ntop (ref_host e) sa dst cnt v4conv = None"
proof -
  from v4mapped_of_macro [OF mapped] obtain a b c d
    where os: "sin6_addr sa = v4mapped [a, b, c, d]" by blast
  let ?t4 = "ref_ntop4 [a, b, c, d]"
  let ?rest = "drop (length (''::ffff:'' @ ?t4) + 1) dst"
  have form: "ntop_text (ref_host e) AF_INET6 (sin6_addr sa) = ''::ffff:'' @ ?t4"
    by (simp only: ref_host_simps os ref_ntop6_v4mapped)
  from room have len: "length (ntop_text (ref_host e) AF_INET6 (sin6_addr sa)) < cnt"
    by (simp add: ref_host_simps)
  have n: "inet_ntop (ref_host e) AF_INET6 (sin6_addr sa) dst cnt
           = Some (''::ffff:'' @ ?t4 @ NUL # ?rest)"
    using inet_ntop_fits [OF len room(2)] unfolding form by simp
  have "length ''::ffff:'' = 7" by simp
  with ref_ntop4_plain(2) [of a b c d]
  have "strcpy_mem (''::ffff:'' @ ?t4 @ NUL # ?rest) 0 7 = None"
    using ref_ntop4_length_min [of a b c d] by (rule strcpy_mem_overlap)
  with n fam mapped(2) conv show ?thesis
    by (simp add: SockAddr_ntop_def)
qed

text \<open>
  C7. \<open>SockAddr_ntop\<close> does not keep the buffer contract of the claim, because it
  drops the result of \<open>inet_ntop\<close> (lines 188 and 195). On a little-endian host
  that prints as the reference host does:

  \<^item> 10.1.2.3 into a capacity of 4: \<open>inet_ntop\<close> fails and stores nothing, and the
    call returns the destination \<open>ZZZZ\<close> as it was, with no terminator in it;

  \<^item> \<open>::ffff:10.1.2.3\<close> with \<open>v4conv\<close> set into a capacity of 4, where the memory
    from \<open>dst\<close> on is \<open>ZZZZGGGabcde\<close> and a terminator: \<open>inet_ntop\<close> fails, and
    \<open>strcpy(dst, dst + 7)\<close> at line 197 copies the stale string \<open>abcde\<close> and its
    terminator to \<open>dst\<close>, so that bytes 4 and 5, behind the capacity, are overwritten;

  \<^item> \<open>::ffff:10.1.2.3\<close> with \<open>v4conv\<close> set into a capacity of 46: the text fits,
    and \<open>strcpy(dst, dst + 7)\<close> copies \<open>10.1.2.3\<close> and its terminator, 9 bytes, from
    \<open>dst + 7\<close> to \<open>dst\<close>. The bytes read and the bytes stored overlap, so the call has
    no defined result. Lemma \<open>SockAddr_ntop_v4conv_overlap\<close> shows the same for every
    mapped address whose text fits.
\<close>

theorem SockAddr_ntop_breaks_buffer_contract:
  "SockAddr_ntop (ref_host LittleEndian) (ipv4_addr LittleEndian [10, 1, 2, 3]) ''ZZZZ'' 4 0
     = Some ''ZZZZ''
   \<and> NUL \<notin> set (take 4 ''ZZZZ'')
   \<and> SockAddr_ntop (ref_host LittleEndian) (ipv6_addr (v4mapped [10, 1, 2, 3]))
        (''ZZZZGGGabcde'' @ [NUL]) 4 1
     = Some (''abcde'' @ [NUL] @ ''Gabcde'' @ [NUL])
   \<and> drop 4 (''abcde'' @ [NUL] @ ''Gabcde'' @ [NUL]) \<noteq> drop 4 (''ZZZZGGGabcde'' @ [NUL])
   \<and> inet_ntop (ref_host LittleEndian) AF_INET6 (v4mapped [10, 1, 2, 3])
        (replicate 46 (CHR ''Z'')) 46
     = Some (''::ffff:10.1.2.3'' @ [NUL] @ replicate 30 (CHR ''Z''))
   \<and> regions_overlap 0 7 (length ''10.1.2.3'' + 1)
   \<and> SockAddr_ntop (ref_host LittleEndian) (ipv6_addr (v4mapped [10, 1, 2, 3]))
        (replicate 46 (CHR ''Z'')) 46 1
     = None"
proof -
  let ?P = "ref_host LittleEndian"
  let ?m = "ipv6_addr (v4mapped [10, 1, 2, 3])"
  have z: "CHR ''Z'' \<noteq> NUL" by (simp add: NUL_def)
  have m: "v4mapped [10, 1, 2, 3] = [0, 0, 0, 0, 0, 0, 0, 0, 0, 0, 0xff, 0xff, 10, 1, 2, 3]"
    by (simp add: v4mapped_def)
  have mm: "IN6_IS_ADDR_V4MAPPED [0, 0, 0, 0, 0, 0, 0, 0, 0, 0, 0xff, 0xff, 10, 1, 2, 3]"
    by (simp add: IN6_IS_ADDR_V4MAPPED_def)
  have t: "ref_ntop6 [0, 0, 0, 0, 0, 0, 0, 0, 0, 0, 0xff, 0xff, 10, 1, 2, 3] = ''::ffff:10.1.2.3''"
    using ref_ntop6_mapped_example by (simp only: m)
  have 1: "SockAddr_ntop ?P (ipv4_addr LittleEndian [10, 1, 2, 3]) ''ZZZZ'' 4 0 = Some ''ZZZZ''"
    using octets_of_ipv4_addr_example
    by (simp add: SockAddr_ntop_def inet_ntop_def ref_host_simps ref_ntop4_example ipv4_addr_def)
  have 2: "NUL \<notin> set (take 4 ''ZZZZ'')" by (simp add: NUL_def)
  have 3: "SockAddr_ntop ?P ?m (''ZZZZGGGabcde'' @ [NUL]) 4 1
           = Some (''abcde'' @ [NUL] @ ''Gabcde'' @ [NUL])"
    by (simp add: SockAddr_ntop_def inet_ntop_def ref_host_simps ipv6_addr_def m mm t
        strcpy_mem_def regions_overlap_def write_at_def NUL_def)
  have 4: "drop 4 (''abcde'' @ [NUL] @ ''Gabcde'' @ [NUL]) \<noteq> drop 4 (''ZZZZGGGabcde'' @ [NUL])"
    by (simp add: NUL_def)
  have 5: "inet_ntop ?P AF_INET6 (v4mapped [10, 1, 2, 3]) (replicate 46 (CHR ''Z'')) 46
           = Some (''::ffff:10.1.2.3'' @ [NUL] @ replicate 30 (CHR ''Z''))"
    by (simp add: inet_ntop_def ref_host_simps m t write_at_def)
  have 6: "regions_overlap 0 7 (length ''10.1.2.3'' + 1)"
    by (simp add: regions_overlap_def)
  have "strcpy_mem (''::ffff:10.1.2.3'' @ [NUL] @ replicate 30 (CHR ''Z'')) 0 7 = None"
    by (simp add: strcpy_mem_def regions_overlap_def NUL_def)
  with 5 have 7: "SockAddr_ntop ?P ?m (replicate 46 (CHR ''Z'')) 46 1 = None"
    by (simp add: SockAddr_ntop_def ipv6_addr_def m mm)
  from 1 2 3 4 5 6 7 show ?thesis by blast
qed

section \<open>Proofs: resolver\<close>

lemma hints_family:
  assumes "unix_hints_ok hintsp"
  shows "ai_family
          (let hints0 = (case hintsp of
                      None \<Rightarrow> zero_addrinfo\<lparr>ai_family := AF_UNIX, ai_socktype := SOCK_STREAM\<rparr>
                    | Some h \<Rightarrow> h)
           in (if ai_socktype hints0 = 0 then hints0\<lparr>ai_socktype := SOCK_STREAM\<rparr> else hints0))
         = AF_UNIX"
  using assms by (auto simp: unix_hints_ok_def Let_def split: option.splits)

text \<open>
  C5. As stated the claim fails: the node and the address buffer are allocated
  (lines 135 and 146) before the length of the path is tested (line 154), and the
  error return frees neither. What holds: when the family test passes and both
  allocations succeed, a path with \<open>strlen(path) >= sizeof(sun_path)\<close> makes
  \<open>getaddrinfo_unix\<close> return \<open>EAI_SERVICE\<close>; the test comes before the copy, so
  \<open>sun_path\<close> is still empty and no file is unlinked; the node and its address
  buffer stay allocated, and \<open>*result\<close> points to the node.
\<close>

theorem getaddrinfo_unix_path_too_long:
  assumes hints: "unix_hints_ok hintsp"
    and mem: "2 \<le> avail w"
    and long: "sun_path_size \<le> length path"
  shows "\<exists>w' node.
           getaddrinfo_unix sun_path_size path hintsp res w
             = Returns (EAI_SERVICE, Some (next_ptr w), w')
           \<and> heap w' (next_ptr w) = Some (Node node)
           \<and> ai_addr node = Some (next_ptr w + 1)
           \<and> heap w' (next_ptr w + 1) = Some (Addr \<lparr>sun_family = AF_UNIX, sun_path = []\<rparr>)
           \<and> files w' = files w"
proof -
  from mem have a0: "avail w \<noteq> 0" and a1: "avail w - 1 \<noteq> 0" by simp_all
  show ?thesis
    using hints_family [OF hints] long a0 a1
    by (simp add: getaddrinfo_unix_def calloc_def store_def Let_def zero_sockaddr_un_def
        split: option.splits)
qed

theorem getaddrinfo_unix_path_too_long_witness:
  "\<exists>w' node.
     getaddrinfo_unix 108 (replicate 108 CHR ''a'') None None
         (fresh_world 2 {replicate 108 CHR ''a''})
       = Returns (EAI_SERVICE, Some 0, w')
     \<and> heap w' 0 = Some (Node node)
     \<and> ai_addr node = Some 1
     \<and> heap w' 1 = Some (Addr \<lparr>sun_family = AF_UNIX, sun_path = []\<rparr>)
     \<and> files w' = {replicate 108 CHR ''a''}"
proof -
  let ?w = "fresh_world 2 {replicate 108 CHR ''a''}"
  have h: "unix_hints_ok None" by (simp add: unix_hints_ok_def)
  have m: "2 \<le> avail ?w" by (simp add: fresh_world_def)
  have l: "108 \<le> length (replicate 108 CHR ''a'')" by simp
  have n: "next_ptr ?w = 0" and f: "files ?w = {replicate 108 CHR ''a''}"
    by (simp_all add: fresh_world_def)
  from getaddrinfo_unix_path_too_long [OF h m l, of None]
  show ?thesis unfolding n f by simp
qed

theorem getaddrinfo_unix_allocates_counterexample:
  "(case getaddrinfo_unix 108 (replicate 108 CHR ''a'') None None (fresh_world 2 {}) of
      Returns (rc, r, w') \<Rightarrow>
        rc = EAI_SERVICE \<and> r = Some 0 \<and> heap w' 0 \<noteq> None \<and> heap w' 1 \<noteq> None \<and> avail w' = 0
    | Segfault \<Rightarrow> False)
   \<and> heap (fresh_world 2 {}) 0 = None
   \<and> heap (fresh_world 2 {}) 1 = None"
  by (simp add: getaddrinfo_unix_def calloc_def store_def Let_def zero_sockaddr_un_def
      zero_addrinfo_def fresh_world_def)

text \<open>
  C6. When the first \<open>calloc\<close> fails \<open>getaddrinfo_unix\<close> returns \<open>EAI_MEMORY\<close> and
  leaves the state as it was. When the second one fails, line 147 tests \<open>aip\<close> again
  instead of \<open>unp\<close>, the test passes, and line 150 stores through the null pointer
  \<open>unp\<close>.
\<close>

theorem getaddrinfo_unix_second_calloc_null:
  "getaddrinfo_unix sun_path_size path None res (w\<lparr>avail := 1\<rparr>) = Segfault
   \<and> getaddrinfo_unix sun_path_size path None res (w\<lparr>avail := 0\<rparr>)
       = Returns (EAI_MEMORY, res, w\<lparr>avail := 0\<rparr>)
   \<and> getaddrinfo_unix 108 ''/tmp/.s.PGSQL.5432'' None None (fresh_world 1 {}) = Segfault"
  by (simp add: getaddrinfo_unix_def calloc_def store_def Let_def zero_addrinfo_def
      fresh_world_def)

end
